theory Spec2Isabelle
  imports Main "HOL-Library.Word"
begin

unbundle bit_operations_syntax

section \<open>The FAT engine of fsck\_msdosfs (sbin/fsck\_msdosfs/fat.c)\<close>

text \<open>
  A shallow embedding of \<^verbatim>\<open>fat.c\<close>: the used and head bitmaps, the FAT12/16/32 entry
  accessors, the generic accessors, the dirty check, the scanner loop of \<^verbatim>\<open>readfat\<close>,
  the chain checker, the chain clearer and the FAT writer.

  Machine integers are words: \<^verbatim>\<open>cl_t\<close>, \<^verbatim>\<open>u_int\<close>, \<^verbatim>\<open>uint32_t\<close> and \<^verbatim>\<open>int\<close> have 32 bits,
  \<^verbatim>\<open>size_t\<close>, \<^verbatim>\<open>off_t\<close> and \<^verbatim>\<open>unsigned long\<close> have 64 bits (LP64), \<^verbatim>\<open>uint8_t\<close> has 8.
  Memory reached through a pointer (\<^verbatim>\<open>fat->fatbuf\<close>, \<^verbatim>\<open>lbp->map\<close>) is a map from the
  offset (in elements) to the element stored there; a store \<^verbatim>\<open>p[i] = v\<close> is a function
  update. The model does not bound the offsets by the size of the allocation: the C
  code does not either.
\<close>

type_synonym cl_t = "32 word"
type_synonym u_int = "32 word"
type_synonym size_t = "64 word"
type_synonym off_t = "64 word"
type_synonym u_char = "8 word"

subsection \<open>Constants of the headers\<close>

text \<open>
  Modelled from the spec: the cluster sentinels and masks are macros of \<^verbatim>\<open>dosfs.h\<close>,
  which is not under src/. The spec fixes FREE = 0, FIRST = 2, BAD = 0x...FF7,
  EOFS = 0x...FF8 (after sign extension to 32 bits) and the three width masks; the
  FAT32 mask has 28 bits (the four top bits of a FAT32 entry are reserved, as the
  layout comment of \<^verbatim>\<open>fat.c\<close> draws them). RSRVD, EOF and DEAD carry the header's values.
\<close>

definition CLUST_FREE :: cl_t where "CLUST_FREE = 0"
definition CLUST_FIRST :: cl_t where "CLUST_FIRST = 2"
definition CLUST_RSRVD :: cl_t where "CLUST_RSRVD = 0xfffffff6"
definition CLUST_BAD :: cl_t where "CLUST_BAD = 0xfffffff7"
definition CLUST_EOFS :: cl_t where "CLUST_EOFS = 0xfffffff8"
definition CLUST_EOF :: cl_t where "CLUST_EOF = 0xffffffff"
definition CLUST_DEAD :: cl_t where "CLUST_DEAD = 0xfdeadc0d"

definition CLUST12_MASK :: cl_t where "CLUST12_MASK = 0xfff"
definition CLUST16_MASK :: cl_t where "CLUST16_MASK = 0xffff"
definition CLUST32_MASK :: cl_t where "CLUST32_MASK = 0xfffffff"

text \<open>
  Modelled from the spec: the status flags are macros of \<^verbatim>\<open>ext.h\<close>, which is not under
  src/. The spec names OK = 0, FATMOD, ERROR, FATAL and FSDIRTY as flags that combine by
  bitwise OR; the values are the header's.
\<close>

definition FSOK :: "32 word" where "FSOK = 0"
definition FSFATMOD :: "32 word" where "FSFATMOD = 4"
definition FSERROR :: "32 word" where "FSERROR = 8"
definition FSFATAL :: "32 word" where "FSFATAL = 16"
definition FSDIRTY :: "32 word" where "FSDIRTY = 32"

text \<open>\<^verbatim>\<open>LONG_BIT\<close> of \<^verbatim>\<open>sys/limits.h\<close> on an LP64 platform.\<close>

definition LONG_BIT :: cl_t where "LONG_BIT = 64"

subsection \<open>The collaborators: diagnostics, the oracle, the read-only switch\<close>

text \<open>
  Modelled from the spec: \<^verbatim>\<open>pwarn\<close>, \<^verbatim>\<open>pfatal\<close>, \<^verbatim>\<open>perr\<close>, \<^verbatim>\<open>ask\<close> and the global \<^verbatim>\<open>rdonly\<close>
  are declared in \<^verbatim>\<open>ext.h\<close> and \<^verbatim>\<open>fsutil.h\<close> and defined outside src/. The spec
  describes the first three as diagnostic sinks, \<^verbatim>\<open>ask(default, prompt)\<close> as an
  interactive oracle that a test replaces by a scripted one, and \<^verbatim>\<open>rdonly\<close> as the global
  no-writes switch. The sinks append to a log; the oracle gives the next scripted
  answer, and the default once the script is used up.
\<close>

datatype message =
    InvalidCluster cl_t
  | InvalidClustMask cl_t
  | NoWrite
  | OddByteSequence "u_char list"
  | ContinuesWith cl_t bool cl_t
  | CrossedChain cl_t cl_t cl_t
  | NoSpaceForFATSectors
  | UnableToReadFAT
  | UnableToWriteFAT
  | NoSpaceForFATDescriptor
  | NoSpaceForUsedBitmap size_t
  | NoSpaceForHeadBitmap size_t

datatype diag = Pwarn message | Pfatal message | Perr message

record world =
  rdonly :: bool
  answers :: "bool list"
  diags :: "diag list"

definition pwarn :: "message \<Rightarrow> world \<Rightarrow> world" where
  "pwarn m w = w\<lparr>diags := diags w @ [Pwarn m]\<rparr>"

definition pfatal :: "message \<Rightarrow> world \<Rightarrow> world" where
  "pfatal m w = w\<lparr>diags := diags w @ [Pfatal m]\<rparr>"

definition perr :: "message \<Rightarrow> world \<Rightarrow> world" where
  "perr m w = w\<lparr>diags := diags w @ [Perr m]\<rparr>"

definition ask :: "bool \<Rightarrow> string \<Rightarrow> world \<Rightarrow> bool \<times> world" where
  "ask def prompt w =
     (case answers w of
        [] \<Rightarrow> (def, w)
      | a # rest \<Rightarrow> (a, w\<lparr>answers := rest\<rparr>))"

subsection \<open>The boot block and the FAT descriptor\<close>

text \<open>
  Modelled from the spec: \<^verbatim>\<open>struct bootblock\<close> is declared in \<^verbatim>\<open>dosfs.h\<close>, which is not
  under src/. The record has the fields \<^verbatim>\<open>fat.c\<close> reads and writes, under the names it
  uses for them.
\<close>

record bootblock =
  bpbBytesPerSec :: u_int
  bpbResSectors :: u_int
  bpbFATs :: u_int
  bpbMedia :: u_int
  FATsecs :: "32 word"
  ClustMask :: cl_t
  NumClusters :: cl_t
  NumFree :: u_int
  NumBad :: u_int

text \<open>
  \<^verbatim>\<open>long_bitmap_t\<close>: the words of the map and the number of set bits. (The fields are
  \<^verbatim>\<open>map\<close> and \<^verbatim>\<open>count\<close> in the source.)
\<close>

record long_bitmap =
  map_words :: "nat \<Rightarrow> 64 word"
  count_bits :: size_t

text \<open>
  \<^verbatim>\<open>struct fat_descriptor\<close>. The function pointers \<^verbatim>\<open>get\<close> and \<^verbatim>\<open>set\<close> are never assigned or
  called in \<^verbatim>\<open>fat.c\<close> and are left out, as is the file descriptor.
\<close>

record fat_descriptor =
  boot :: bootblock
  fatbuf :: "nat \<Rightarrow> u_char"
  usedbitmap :: long_bitmap
  headbitmap :: long_bitmap
  is_mmapped :: bool
  fatsize :: size_t

subsection \<open>Bitmaps\<close>

text \<open>
  An \<^verbatim>\<open>assert\<close> that fails aborts the process: a function that reaches one returns
  \<open>Abort\<close> then, and \<open>Return\<close> with its result otherwise.
\<close>

datatype 'a outcome = Abort | Return 'a

definition bitmap_set :: "long_bitmap \<Rightarrow> cl_t \<Rightarrow> long_bitmap outcome" where
  "bitmap_set lbp cl =
     (let i = unat (cl div LONG_BIT);
          setbit = (push_bit (unat (cl mod LONG_BIT)) 1 :: 64 word)
      in if map_words lbp i AND setbit \<noteq> 0 then Abort
         else Return (lbp\<lparr>map_words := (map_words lbp)(i := map_words lbp i OR setbit),
                        count_bits := count_bits lbp + 1\<rparr>))"

definition bitmap_clear :: "long_bitmap \<Rightarrow> cl_t \<Rightarrow> long_bitmap outcome" where
  "bitmap_clear lbp cl =
     (let i = unat (cl div LONG_BIT);
          clearmask = NOT (push_bit (unat (cl mod LONG_BIT)) 1 :: 64 word)
      in if map_words lbp i AND NOT clearmask = 0 then Abort
         else Return (lbp\<lparr>map_words := (map_words lbp)(i := map_words lbp i AND clearmask),
                        count_bits := count_bits lbp - 1\<rparr>))"

definition bitmap_get :: "long_bitmap \<Rightarrow> cl_t \<Rightarrow> bool" where
  "bitmap_get lbp cl =
     (let i = unat (cl div LONG_BIT);
          usedbit = (push_bit (unat (cl mod LONG_BIT)) 1 :: 64 word)
      in map_words lbp i AND usedbit = usedbit)"

text \<open>
  \<^verbatim>\<open>bitmap_ctor\<close> where \<^verbatim>\<open>calloc\<close> succeeds: all words zero, or all words \<^verbatim>\<open>0xff..ff\<close> and
  the count set to the number of bits asked for.
\<close>

definition bitmap_ctor :: "size_t \<Rightarrow> bool \<Rightarrow> long_bitmap" where
  "bitmap_ctor bits allone =
     (if allone then \<lparr>map_words = (\<lambda>_. - 1), count_bits = bits\<rparr>
      else \<lparr>map_words = (\<lambda>_. 0), count_bits = 0\<rparr>)"

definition fat_set_cl_used :: "fat_descriptor \<Rightarrow> cl_t \<Rightarrow> fat_descriptor outcome" where
  "fat_set_cl_used fat cl =
     map_outcome (\<lambda>b. fat\<lparr>usedbitmap := b\<rparr>) (bitmap_set (usedbitmap fat) cl)"

definition fat_clear_cl_used :: "fat_descriptor \<Rightarrow> cl_t \<Rightarrow> fat_descriptor outcome" where
  "fat_clear_cl_used fat cl =
     map_outcome (\<lambda>b. fat\<lparr>usedbitmap := b\<rparr>) (bitmap_clear (usedbitmap fat) cl)"

definition fat_is_cl_used :: "fat_descriptor \<Rightarrow> cl_t \<Rightarrow> bool" where
  "fat_is_cl_used fat cl = bitmap_get (usedbitmap fat) cl"

definition fat_clear_cl_head :: "fat_descriptor \<Rightarrow> cl_t \<Rightarrow> fat_descriptor outcome" where
  "fat_clear_cl_head fat cl =
     map_outcome (\<lambda>b. fat\<lparr>headbitmap := b\<rparr>) (bitmap_clear (headbitmap fat) cl)"

definition fat_is_cl_head :: "fat_descriptor \<Rightarrow> cl_t \<Rightarrow> bool" where
  "fat_is_cl_head fat cl = bitmap_get (headbitmap fat) cl"

subsection \<open>Little-endian access\<close>

text \<open>
  Modelled from the spec: \<^verbatim>\<open>le16dec\<close>, \<^verbatim>\<open>le16enc\<close>, \<^verbatim>\<open>le32dec\<close> and \<^verbatim>\<open>le32enc\<close> are inline
  functions of \<^verbatim>\<open>sys/endian.h\<close>, which is not under src/; the spec says the entries are
  read and written little-endian. The second argument is the offset of \<^verbatim>\<open>p\<close> in the
  buffer.
\<close>

definition le16dec :: "(nat \<Rightarrow> u_char) \<Rightarrow> nat \<Rightarrow> 16 word" where
  "le16dec buf p = push_bit 8 (ucast (buf (p + 1))) OR ucast (buf p)"

definition le16enc :: "(nat \<Rightarrow> u_char) \<Rightarrow> nat \<Rightarrow> 16 word \<Rightarrow> (nat \<Rightarrow> u_char)" where
  "le16enc buf p u = buf(p := ucast u, p + 1 := ucast (drop_bit 8 u))"

definition le32dec :: "(nat \<Rightarrow> u_char) \<Rightarrow> nat \<Rightarrow> 32 word" where
  "le32dec buf p =
     push_bit 24 (ucast (buf (p + 3))) OR push_bit 16 (ucast (buf (p + 2)))
       OR push_bit 8 (ucast (buf (p + 1))) OR ucast (buf p)"

definition le32enc :: "(nat \<Rightarrow> u_char) \<Rightarrow> nat \<Rightarrow> 32 word \<Rightarrow> (nat \<Rightarrow> u_char)" where
  "le32enc buf p u =
     buf(p := ucast u, p + 1 := ucast (drop_bit 8 u),
         p + 2 := ucast (drop_bit 16 u), p + 3 := ucast (drop_bit 24 u))"

subsection \<open>The width codec\<close>

text \<open>The pointer functions return the offset from \<^verbatim>\<open>fat->fatbuf\<close>; it is computed in \<^verbatim>\<open>cl_t\<close>.\<close>

definition fat_get_fat12_ptr :: "cl_t \<Rightarrow> nat" where
  "fat_get_fat12_ptr cl = unat (cl + drop_bit 1 cl)"

definition fat_get_fat12_next :: "fat_descriptor \<Rightarrow> cl_t \<Rightarrow> cl_t" where
  "fat_get_fat12_next fat cl =
     (let p = fat_get_fat12_ptr cl;
          retval = (ucast (le16dec (fatbuf fat) p) :: cl_t);
          retval = (if cl AND 1 = 1 then drop_bit 4 retval else retval);
          retval = retval AND CLUST12_MASK
      in if retval \<ge> (CLUST_BAD AND CLUST12_MASK) then retval OR NOT CLUST12_MASK
         else retval)"

definition fat_set_fat12_next :: "fat_descriptor \<Rightarrow> cl_t \<Rightarrow> cl_t \<Rightarrow> 32 word \<times> fat_descriptor" where
  "fat_set_fat12_next fat cl nextcl =
     (let nextcl = nextcl AND CLUST12_MASK;
          p = fat_get_fat12_ptr cl;
          nextcl =
            (if cl AND 1 = 0
             then nextcl OR push_bit 8 (ucast (fatbuf fat (p + 1)) AND 0xf0)
             else push_bit 4 nextcl OR (ucast (fatbuf fat p) AND 0x0f))
      in (0, fat\<lparr>fatbuf := le16enc (fatbuf fat) p (ucast nextcl)\<rparr>))"

definition fat_get_fat16_ptr :: "cl_t \<Rightarrow> nat" where
  "fat_get_fat16_ptr cl = unat (push_bit 1 cl)"

definition fat_get_fat16_next :: "fat_descriptor \<Rightarrow> cl_t \<Rightarrow> cl_t" where
  "fat_get_fat16_next fat cl =
     (let p = fat_get_fat16_ptr cl;
          retval = (ucast (le16dec (fatbuf fat) p) :: cl_t) AND CLUST16_MASK
      in if retval \<ge> (CLUST_BAD AND CLUST16_MASK) then retval OR NOT CLUST16_MASK
         else retval)"

definition fat_set_fat16_next :: "fat_descriptor \<Rightarrow> cl_t \<Rightarrow> cl_t \<Rightarrow> 32 word \<times> fat_descriptor" where
  "fat_set_fat16_next fat cl nextcl =
     (let nextcl = nextcl AND CLUST16_MASK;
          p = fat_get_fat16_ptr cl
      in (0, fat\<lparr>fatbuf := le16enc (fatbuf fat) p (ucast nextcl)\<rparr>))"

definition fat_get_fat32_ptr :: "cl_t \<Rightarrow> nat" where
  "fat_get_fat32_ptr cl = unat (push_bit 2 cl)"

definition fat_get_fat32_next :: "fat_descriptor \<Rightarrow> cl_t \<Rightarrow> cl_t" where
  "fat_get_fat32_next fat cl =
     (let p = fat_get_fat32_ptr cl;
          retval = le32dec (fatbuf fat) p AND CLUST32_MASK
      in if retval \<ge> (CLUST_BAD AND CLUST32_MASK) then retval OR NOT CLUST32_MASK
         else retval)"

definition fat_set_fat32_next :: "fat_descriptor \<Rightarrow> cl_t \<Rightarrow> cl_t \<Rightarrow> 32 word \<times> fat_descriptor" where
  "fat_set_fat32_next fat cl nextcl =
     (let nextcl = nextcl AND CLUST32_MASK;
          p = fat_get_fat32_ptr cl
      in (0, fat\<lparr>fatbuf := le32enc (fatbuf fat) p nextcl\<rparr>))"

subsection \<open>The generic accessors\<close>

definition fat_get_cl_next :: "world \<Rightarrow> fat_descriptor \<Rightarrow> cl_t \<Rightarrow> cl_t \<times> world" where
  "fat_get_cl_next w fat cl =
     (if cl < CLUST_FIRST \<or> cl \<ge> NumClusters (boot fat)
      then (CLUST_DEAD, pfatal (InvalidCluster cl) w)
      else if ClustMask (boot fat) = CLUST12_MASK then (fat_get_fat12_next fat cl, w)
      else if ClustMask (boot fat) = CLUST16_MASK then (fat_get_fat16_next fat cl, w)
      else if ClustMask (boot fat) = CLUST32_MASK then (fat_get_fat32_next fat cl, w)
      else (CLUST_DEAD, pfatal (InvalidClustMask (ClustMask (boot fat))) w))"

definition fat_set_cl_next :: "world \<Rightarrow> fat_descriptor \<Rightarrow> cl_t \<Rightarrow> cl_t \<Rightarrow> 32 word \<times> fat_descriptor \<times> world" where
  "fat_set_cl_next w fat cl nextcl =
     (if rdonly w then (FSFATAL, fat, pwarn NoWrite w)
      else if cl < CLUST_FIRST \<or> cl \<ge> NumClusters (boot fat)
      then (FSFATAL, fat, pfatal (InvalidCluster cl) w)
      else if ClustMask (boot fat) = CLUST12_MASK
      then (let (r, fat') = fat_set_fat12_next fat cl nextcl in (r, fat', w))
      else if ClustMask (boot fat) = CLUST16_MASK
      then (let (r, fat') = fat_set_fat16_next fat cl nextcl in (r, fat', w))
      else if ClustMask (boot fat) = CLUST32_MASK
      then (let (r, fat') = fat_set_fat32_next fat cl nextcl in (r, fat', w))
      else (FSFATAL, fat, pfatal (InvalidClustMask (ClustMask (boot fat))) w))"

definition fat_is_cl_valid :: "fat_descriptor \<Rightarrow> cl_t \<Rightarrow> bool" where
  "fat_is_cl_valid fat cl = (cl \<ge> CLUST_FIRST \<and> cl < NumClusters (boot fat))"

subsection \<open>The dirty check\<close>

text \<open>
  \<^verbatim>\<open>checkdirty\<close> allocates a buffer of one sector, seeks to the first FAT and reads the
  sector. What \<^verbatim>\<open>malloc\<close>, \<^verbatim>\<open>lseek\<close> and \<^verbatim>\<open>read\<close> do is the environment's: no space, a
  seek that fails, a read that fails or is short, or the sector read.
\<close>

datatype sector_read = NoSpace | SeekFailed | ReadFailed | SectorRead "nat \<Rightarrow> u_char"

text \<open>
  The two tests at lines 504 to 514 that leave through \<^verbatim>\<open>goto err\<close>: the FAT is not
  understood.
\<close>

definition checkdirty_not_understood :: "bootblock \<Rightarrow> (nat \<Rightarrow> u_char) \<Rightarrow> bool" where
  "checkdirty_not_understood bt buffer =
     (if ucast (buffer 0) \<noteq> bpbMedia bt \<or> buffer 1 \<noteq> 0xff then True
      else if ClustMask bt = CLUST16_MASK
      then buffer 2 AND 0xf8 \<noteq> 0xf8 \<or> buffer 3 AND 0x3f \<noteq> 0x3f
      else buffer 2 \<noteq> 0xff \<or> buffer 3 AND 0x0f \<noteq> 0x0f
           \<or> buffer 4 AND 0xf8 \<noteq> 0xf8 \<or> buffer 5 \<noteq> 0xff
           \<or> buffer 6 \<noteq> 0xff \<or> buffer 7 AND 0x03 \<noteq> 0x03)"

definition checkdirty :: "world \<Rightarrow> sector_read \<Rightarrow> bootblock \<Rightarrow> 32 word \<times> world" where
  "checkdirty w io bt =
     (if ClustMask bt \<noteq> CLUST16_MASK \<and> ClustMask bt \<noteq> CLUST32_MASK then (0, w)
      else case io of
        NoSpace \<Rightarrow> (1, perr NoSpaceForFATSectors w)
      | SeekFailed \<Rightarrow> (0, perr UnableToReadFAT w)
      | ReadFailed \<Rightarrow> (0, perr UnableToReadFAT w)
      | SectorRead buffer \<Rightarrow>
          if checkdirty_not_understood bt buffer then (0, w)
          else if ClustMask bt = CLUST16_MASK
          then (if buffer 3 AND 0xc0 = 0xc0 then (1, w) else (0, w))
          else (if buffer 7 AND 0x0c = 0x0c then (1, w) else (0, w)))"

subsection \<open>The loader's signature validation and the scanner\<close>

text \<open>
  The condition of the \<^verbatim>\<open>if\<close> at lines 641 to 647 of \<^verbatim>\<open>readfat\<close>: the buffer does not
  start with the clean signature.
\<close>

definition readfat_not_clean :: "bootblock \<Rightarrow> (nat \<Rightarrow> u_char) \<Rightarrow> bool" where
  "readfat_not_clean bt buffer =
     (ucast (buffer 0) \<noteq> bpbMedia bt
      \<or> buffer 1 \<noteq> 0xff \<or> buffer 2 \<noteq> 0xff
      \<or> (ClustMask bt = CLUST16_MASK \<and> buffer 3 \<noteq> 0xff)
      \<or> (ClustMask bt = CLUST32_MASK
          \<and> (buffer 3 AND 0x0f \<noteq> 0x0f
               \<or> buffer 4 \<noteq> 0xff \<or> buffer 5 \<noteq> 0xff
               \<or> buffer 6 \<noteq> 0xff \<or> buffer 7 AND 0x0f \<noteq> 0x0f)))"

text \<open>The condition of the \<^verbatim>\<open>if\<close> at lines 655 to 661: the signature of a dirty volume.\<close>

definition readfat_dirty :: "bootblock \<Rightarrow> (nat \<Rightarrow> u_char) \<Rightarrow> bool" where
  "readfat_dirty bt buffer =
     (ucast (buffer 0) = bpbMedia bt \<and> buffer 1 = 0xff
      \<and> buffer 2 = 0xff
      \<and> ((ClustMask bt = CLUST16_MASK \<and> buffer 3 = 0x7f)
          \<or> (ClustMask bt = CLUST32_MASK
              \<and> buffer 3 = 0x0f \<and> buffer 4 = 0xff
              \<and> buffer 5 = 0xff \<and> buffer 6 = 0xff
              \<and> buffer 7 = 0x07)))"

text \<open>Lines 641 to 707: the validation, the dirty flag, and the offer to correct.\<close>

definition readfat_signature :: "world \<Rightarrow> fat_descriptor \<Rightarrow> 32 word \<Rightarrow> 32 word \<times> fat_descriptor \<times> world" where
  "readfat_signature w fat ret =
     (let buffer = fatbuf fat; bt = boot fat in
      if readfat_not_clean bt buffer then
        if readfat_dirty bt buffer then (ret OR FSDIRTY, fat, w)
        else
          (let w1 = pwarn (OddByteSequence
                      (if ClustMask bt = CLUST32_MASK then map buffer [0..<8]
                       else if ClustMask bt = CLUST16_MASK then map buffer [0..<4]
                       else map buffer [0..<3])) w;
               (a, w2) = ask True ''Correct'' w1
           in if a then
                (let b1 = buffer(0 := ucast (bpbMedia bt), 1 := 0xff, 2 := 0xff);
                     b2 = (if ClustMask bt = CLUST16_MASK then b1(3 := 0xff)
                           else if ClustMask bt = CLUST32_MASK
                           then b1(3 := 0x0f, 4 := 0xff, 5 := 0xff, 6 := 0xff, 7 := 0x0f)
                           else b1)
                 in (ret, fat\<lparr>fatbuf := b2\<rparr>, w2))
              else (ret, fat, w2))
      else (ret, fat, w))"

text \<open>
  The body of the \<^verbatim>\<open>for\<close> loop at lines 713 to 750, for one cluster \<^verbatim>\<open>cl\<close>. It returns the
  status \<^verbatim>\<open>ret\<close>, the descriptor and the world after the iteration.
\<close>

definition readfat_body :: "world \<Rightarrow> fat_descriptor \<Rightarrow> 32 word \<Rightarrow> cl_t \<Rightarrow> (32 word \<times> fat_descriptor \<times> world) outcome" where
  "readfat_body w fat ret cl =
     (let (nextcl, w1) = fat_get_cl_next w fat cl in
      if nextcl = CLUST_FREE then
        (case (if fat_is_cl_head fat cl then fat_clear_cl_head fat cl else Return fat) of
           Abort \<Rightarrow> Abort
         | Return fat1 \<Rightarrow>
             Return (ret, fat1\<lparr>boot := (boot fat1)\<lparr>NumFree := NumFree (boot fat1) + 1\<rparr>\<rparr>, w1))
      else if nextcl = CLUST_BAD then
        (case (if fat_is_cl_head fat cl then fat_clear_cl_head fat cl else Return fat) of
           Abort \<Rightarrow> Abort
         | Return fat1 \<Rightarrow>
             Return (ret, fat1\<lparr>boot := (boot fat1)\<lparr>NumBad := NumBad (boot fat1) + 1\<rparr>\<rparr>, w1))
      else if nextcl < CLUST_FIRST
              \<or> (nextcl \<ge> NumClusters (boot fat) \<and> nextcl < CLUST_EOFS) then
        (let w2 = pwarn (ContinuesWith cl (\<not> nextcl < CLUST_RSRVD)
                           (nextcl AND ClustMask (boot fat))) w1;
             (a, w3) = ask False ''Truncate'' w2
         in if a then
              (let (r, fat1, w4) = fat_set_cl_next w3 fat cl CLUST_EOF
               in Return (ret OR FSFATMOD, fat1, w4))
            else Return (ret, fat, w3))
      else if nextcl < NumClusters (boot fat) then
        (if fat_is_cl_head fat nextcl
         then (case fat_clear_cl_head fat nextcl of
                 Abort \<Rightarrow> Abort
               | Return fat1 \<Rightarrow> Return (ret, fat1, w1))
         else Return (ret, fat, w1))
      else Return (ret, fat, w1))"

text \<open>
  The loop itself: \<^verbatim>\<open>for (cl = CLUST_FIRST; cl < boot->NumClusters; cl++)\<close>. It ends because
  the body leaves \<^verbatim>\<open>NumClusters\<close> alone.
\<close>

lemma fat_set_cl_next_boot:
  "fat_set_cl_next w fat cl n = (r, fat', w') \<Longrightarrow> boot fat' = boot fat"
  by (auto simp: fat_set_cl_next_def fat_set_fat12_next_def fat_set_fat16_next_def
      fat_set_fat32_next_def Let_def split: if_splits)

lemma fat_clear_cl_head_boot: "fat_clear_cl_head fat cl = Return fat' \<Longrightarrow> boot fat' = boot fat"
  by (cases "bitmap_clear (headbitmap fat) cl") (auto simp: fat_clear_cl_head_def)

lemma readfat_body_NumClusters:
  "readfat_body w fat ret cl = Return (ret', fat', w') \<Longrightarrow>
     NumClusters (boot fat') = NumClusters (boot fat)"
  unfolding readfat_body_def
  by (auto simp: Let_def split: prod.splits if_splits outcome.splits
      dest!: fat_clear_cl_head_boot fat_set_cl_next_boot)

lemma unat_plus_1_less:
  assumes "(cl :: 32 word) < n"
  shows "unat (cl + 1) = Suc (unat cl)"
proof -
  have "unat cl < unat n" using assms by (simp add: word_less_nat_alt)
  moreover have "unat n < 2 ^ 32" using unsigned_less[of n, where 'a=nat] by simp
  ultimately show ?thesis by (simp add: unat_word_ariths)
qed

function readfat_loop :: "world \<Rightarrow> fat_descriptor \<Rightarrow> 32 word \<Rightarrow> cl_t \<Rightarrow> (32 word \<times> fat_descriptor \<times> world) outcome" where
  "readfat_loop w fat ret cl =
     (if cl < NumClusters (boot fat) then
        (case readfat_body w fat ret cl of
           Abort \<Rightarrow> Abort
         | Return (ret', fat', w') \<Rightarrow> readfat_loop w' fat' ret' (cl + 1))
      else Return (ret, fat, w))"
  by pat_completeness auto
termination
proof (relation "measure (\<lambda>(w, fat, ret, cl). unat (NumClusters (boot fat)) - unat cl)", goal_cases)
  case 1
  show ?case by simp
next
  case (2 w fat ret cl x2 ret' y fat' w')
  then have n: "NumClusters (boot fat') = NumClusters (boot fat)"
    using readfat_body_NumClusters by blast
  with 2(1) unat_plus_1_less[OF 2(1)] show ?case
    by (simp add: word_less_nat_alt)
qed

declare readfat_loop.simps [simp del]

text \<open>
  What the allocations and \<^verbatim>\<open>_readfat\<close> do is the environment's, in the order of the calls:
  no space for the descriptor (\<^verbatim>\<open>calloc\<close>); in \<^verbatim>\<open>_readfat\<close>, when \<^verbatim>\<open>mmap\<close> has failed, no
  space for the buffer, a seek that fails, a read that fails or is short; no space for
  the used bitmap; no space for the head bitmap; or the buffer and whether it is mapped.
\<close>

datatype fat_acquisition =
    NoDescriptor
  | NoFATSectors
  | FATSeekFailed
  | FATReadFailed
  | NoUsedBitmap
  | NoHeadBitmap
  | Acquired "nat \<Rightarrow> u_char" bool

text \<open>
  \<^verbatim>\<open>readfat\<close>. It zeroes the two counts of the caller's boot block first; every failure to
  acquire logs its \<^verbatim>\<open>perr\<close> and returns FSFATAL; \<open>readfat_descriptor\<close> is the descriptor as
  lines 609 to 639 fill it in. The result is the status, the caller's boot
  block, the descriptor handed out through \<^verbatim>\<open>fp\<close> (none when the status is fatal) and the
  world.
\<close>

definition readfat_descriptor :: "bootblock \<Rightarrow> (nat \<Rightarrow> u_char) \<Rightarrow> bool \<Rightarrow> fat_descriptor" where
  "readfat_descriptor bt0 buffer mapped =
     \<lparr>boot = bt0, fatbuf = buffer,
      usedbitmap = bitmap_ctor (ucast (NumClusters bt0)) False,
      headbitmap = bitmap_ctor (ucast (NumClusters bt0)) True,
      is_mmapped = mapped,
      fatsize = ucast (FATsecs bt0 * bpbBytesPerSec bt0)\<rparr>"

definition readfat :: "world \<Rightarrow> bootblock \<Rightarrow> fat_acquisition \<Rightarrow> (32 word \<times> bootblock \<times> fat_descriptor option \<times> world) outcome" where
  "readfat w bt acquired =
     (let bt0 = bt\<lparr>NumFree := 0, NumBad := 0\<rparr> in
      case acquired of
        NoDescriptor \<Rightarrow> Return (FSFATAL, bt0, None, perr NoSpaceForFATDescriptor w)
      | NoFATSectors \<Rightarrow> Return (FSFATAL, bt0, None, perr NoSpaceForFATSectors w)
      | FATSeekFailed \<Rightarrow> Return (FSFATAL, bt0, None, perr UnableToReadFAT w)
      | FATReadFailed \<Rightarrow> Return (FSFATAL, bt0, None, perr UnableToReadFAT w)
      | NoUsedBitmap \<Rightarrow>
          Return (FSFATAL, bt0, None, perr (NoSpaceForUsedBitmap (ucast (NumClusters bt0))) w)
      | NoHeadBitmap \<Rightarrow>
          Return (FSFATAL, bt0, None, perr (NoSpaceForHeadBitmap (ucast (NumClusters bt0))) w)
      | Acquired buffer mapped \<Rightarrow>
          (let fat = readfat_descriptor bt0 buffer mapped;
               (ret, fat1, w1) = readfat_signature w fat FSOK
           in case readfat_loop w1 fat1 ret CLUST_FIRST of
                Abort \<Rightarrow> Abort
              | Return (ret', fat', w') \<Rightarrow>
                  if ret' AND FSFATAL \<noteq> 0 then Return (ret', boot fat', None, w')
                  else Return (ret', boot fat', Some fat', w')))"

subsection \<open>The chain checker\<close>

definition truncate_at :: "world \<Rightarrow> fat_descriptor \<Rightarrow> cl_t \<Rightarrow> size_t \<Rightarrow> 32 word \<times> size_t \<times> fat_descriptor \<times> world" where
  "truncate_at w fat current_cl chainsize =
     (let (a, w1) = ask False ''Truncate'' w in
      if a then
        (let (r, fat1, w2) = fat_set_cl_next w1 fat current_cl CLUST_EOF
         in (FSFATMOD, chainsize + 1, fat1, w2))
      else (FSERROR, chainsize, fat, w1))"

text \<open>
  The loop of \<^verbatim>\<open>checkchain\<close> ends because every iteration that goes on has set a bit of
  the used bitmap that was clear. The facts about the bitmap that say so:
\<close>

lemma and_bit_eq:
  assumes "k < 64"
  shows "((w :: 64 word) AND push_bit k 1 = push_bit k 1) = bit w k"
proof
  assume "w AND push_bit k 1 = push_bit k 1"
  then have "bit (w AND push_bit k 1) k = bit (push_bit k 1 :: 64 word) k" by simp
  then show "bit w k" using assms by (simp add: bit_simps)
next
  assume "bit w k"
  then show "w AND push_bit k 1 = push_bit k 1"
    by (intro bit_word_eqI) (auto simp: bit_simps)
qed

lemma unat_mod_LONG_BIT: "unat ((cl :: cl_t) mod LONG_BIT) < 64"
  by (simp add: LONG_BIT_def unat_mod_distrib)

lemma bitmap_get_bit:
  "bitmap_get lbp cl = bit (map_words lbp (unat (cl div LONG_BIT))) (unat (cl mod LONG_BIT))"
  unfolding bitmap_get_def Let_def by (rule and_bit_eq[OF unat_mod_LONG_BIT])

lemma div_mod_eq_cl:
  "unat ((c::32 word) div LONG_BIT) = unat (cl div LONG_BIT) \<Longrightarrow>
   unat (c mod LONG_BIT) = unat (cl mod LONG_BIT) \<Longrightarrow> c = cl"
  by (metis div_mult_mod_eq word_unat_eq_iff)

lemma bitmap_get_set:
  assumes "bitmap_set lbp cl = Return lbp'"
  shows "bitmap_get lbp' c = (c = cl \<or> bitmap_get lbp c)"
proof -
  have k: "unat (cl mod LONG_BIT) < 64" "unat (c mod LONG_BIT) < 64"
    by (simp_all add: unat_mod_LONG_BIT)
  from assms have m: "map_words lbp' = (map_words lbp)(unat (cl div LONG_BIT) :=
       map_words lbp (unat (cl div LONG_BIT)) OR push_bit (unat (cl mod LONG_BIT)) 1)"
    by (auto simp: bitmap_set_def Let_def split: if_splits)
  show ?thesis
    unfolding bitmap_get_bit m using k div_mod_eq_cl[of c cl]
    by (auto simp: bit_simps)
qed

lemma fat_set_cl_used_get:
  "fat_set_cl_used fat cl = Return fat' \<Longrightarrow>
     fat_is_cl_used fat' c = (c = cl \<or> fat_is_cl_used fat c)"
  by (cases "bitmap_set (usedbitmap fat) cl")
     (auto simp: fat_set_cl_used_def fat_is_cl_used_def bitmap_get_set)

text \<open>
  The \<^verbatim>\<open>for\<close> loop of \<^verbatim>\<open>checkchain\<close> (lines 833 to 845) with the code after it (lines 847
  to 858): the arguments are the variables \<^verbatim>\<open>current_cl\<close>, \<^verbatim>\<open>next_cl\<close> and \<^verbatim>\<open>*chainsize\<close> at
  the loop's test; the result is the value \<^verbatim>\<open>checkchain\<close> returns, \<^verbatim>\<open>*chainsize\<close>, the
  descriptor and the world.
\<close>

function checkchain_loop :: "world \<Rightarrow> fat_descriptor \<Rightarrow> cl_t \<Rightarrow> cl_t \<Rightarrow> cl_t \<Rightarrow> size_t \<Rightarrow> (32 word \<times> size_t \<times> fat_descriptor \<times> world) outcome" where
  "checkchain_loop w fat head current_cl next_cl chainsize =
     (if fat_is_cl_valid fat next_cl then
        if fat_is_cl_used fat next_cl
        then Return (truncate_at (pwarn (CrossedChain head current_cl next_cl) w)
                       fat current_cl chainsize)
        else
          (case fat_set_cl_used fat next_cl of
             Abort \<Rightarrow> Abort
           | Return fat1 \<Rightarrow>
               (let (n, w1) = fat_get_cl_next w fat1 next_cl
                in checkchain_loop w1 fat1 head next_cl n (chainsize + 1)))
      else if next_cl \<ge> CLUST_EOFS then Return (FSOK, chainsize + 1, fat, w)
      else Return (truncate_at
                     (pwarn (ContinuesWith current_cl (\<not> next_cl < CLUST_RSRVD)
                               (next_cl AND ClustMask (boot fat))) w)
                     fat current_cl chainsize))"
  by pat_completeness auto
termination
proof (relation "measure (\<lambda>(w, fat, head, current_cl, next_cl, chainsize).
          card {c. \<not> fat_is_cl_used fat c})", goal_cases)
  case 1
  show ?case by simp
next
  case (2 w fat head current_cl next_cl chainsize fat1 x y)
  have "{c. \<not> fat_is_cl_used fat1 c} \<subset> {c. \<not> fat_is_cl_used fat c}"
    using 2(2) fat_set_cl_used_get[OF 2(3)] by auto
  then show ?case by (simp add: psubset_card_mono)
qed

declare checkchain_loop.simps [simp del]

text \<open>
  \<^verbatim>\<open>checkchain\<close>: the three assertions, the marking of the head, \<^verbatim>\<open>*chainsize = 0\<close> and the
  loop's first clause.
\<close>

definition checkchain :: "world \<Rightarrow> fat_descriptor \<Rightarrow> cl_t \<Rightarrow> (32 word \<times> size_t \<times> fat_descriptor \<times> world) outcome" where
  "checkchain w fat head =
     (if \<not> fat_is_cl_valid fat head then Abort
      else if \<not> fat_is_cl_head fat head then Abort
      else if fat_is_cl_used fat head then Abort
      else
        (case fat_clear_cl_head fat head of
           Abort \<Rightarrow> Abort
         | Return fat1 \<Rightarrow>
             (case fat_set_cl_used fat1 head of
                Abort \<Rightarrow> Abort
              | Return fat2 \<Rightarrow>
                  (let (next_cl, w1) = fat_get_cl_next w fat2 head
                   in checkchain_loop w1 fat2 head head next_cl 0))))"

subsection \<open>The chain clearer\<close>

text \<open>
  The \<^verbatim>\<open>for\<close> loop of \<^verbatim>\<open>clearchain\<close> (lines 870 to 878): the arguments are \<^verbatim>\<open>current_cl\<close> and
  \<^verbatim>\<open>next_cl\<close> at the loop's test. The third clause of the \<^verbatim>\<open>for\<close> is
  \<^verbatim>\<open>current_cl = next_cl, next_cl = fat_get_cl_next(fat, current_cl)\<close>. The loop need not end
  (a chain that is a cycle, under \<^verbatim>\<open>rdonly\<close>): \<open>None\<close> is the run that does not return.
\<close>

partial_function (option) clearchain_loop :: "world \<Rightarrow> fat_descriptor \<Rightarrow> cl_t \<Rightarrow> cl_t \<Rightarrow> (fat_descriptor \<times> world) outcome option" where
  "clearchain_loop w fat current_cl next_cl =
     (if fat_is_cl_valid fat current_cl then
        (let (r, fat1, w1) = fat_set_cl_next w fat current_cl CLUST_FREE;
             fat2 = fat1\<lparr>boot := (boot fat1)\<lparr>NumFree := NumFree (boot fat1) + 1\<rparr>\<rparr>
         in case (if fat_is_cl_used fat2 current_cl then fat_clear_cl_used fat2 current_cl
                  else Return fat2) of
              Abort \<Rightarrow> Some Abort
            | Return fat3 \<Rightarrow>
                (let current_cl' = next_cl;
                     (next_cl', w2) = fat_get_cl_next w1 fat3 current_cl'
                 in clearchain_loop w2 fat3 current_cl' next_cl'))
      else Some (Return (fat, w)))"

text \<open>
  \<^verbatim>\<open>clearchain\<close> declares \<^verbatim>\<open>cl_t current_cl, next_cl;\<close> without initialisers, and the first
  clause of its \<^verbatim>\<open>for\<close> assigns \<^verbatim>\<open>current_cl = head\<close> only. The value \<^verbatim>\<open>next_cl\<close> holds when
  the third clause reads it after the first iteration is indeterminate: it is the
  parameter \<open>next_cl0\<close> of the model.
\<close>

definition clearchain :: "cl_t \<Rightarrow> world \<Rightarrow> fat_descriptor \<Rightarrow> cl_t \<Rightarrow> (fat_descriptor \<times> world) outcome option" where
  "clearchain next_cl0 w fat head = clearchain_loop w fat head next_cl0"

subsection \<open>The writer\<close>

text \<open>
  What \<^verbatim>\<open>lseek\<close> and \<^verbatim>\<open>write\<close> return is the environment's: \<open>sys_lseek dev i off\<close> is the
  result of the \<^verbatim>\<open>lseek\<close> to \<open>off\<close> in the iteration for copy \<open>i\<close>, \<open>sys_write dev i n\<close> the
  result of the \<^verbatim>\<open>write\<close> of \<open>n\<close> bytes there, converted to \<^verbatim>\<open>size_t\<close>. The model records the
  calls made, in order.
\<close>

datatype syscall = Lseek off_t | Write off_t size_t

record device =
  sys_lseek :: "u_int \<Rightarrow> off_t \<Rightarrow> off_t"
  sys_write :: "u_int \<Rightarrow> size_t \<Rightarrow> size_t"

text \<open>
  \<^verbatim>\<open>off = boot->bpbResSectors + i * boot->FATsecs; off *= boot->bpbBytesPerSec;\<close> The sum is
  computed in \<^verbatim>\<open>u_int\<close>, the product in \<^verbatim>\<open>off_t\<close>.
\<close>

definition writefat_off :: "bootblock \<Rightarrow> u_int \<Rightarrow> off_t" where
  "writefat_off bt i = ucast (bpbResSectors bt + i * FATsecs bt) * ucast (bpbBytesPerSec bt)"

function writefat_loop :: "device \<Rightarrow> fat_descriptor \<Rightarrow> u_int \<Rightarrow> 32 word \<times> syscall list \<times> world \<Rightarrow> 32 word \<times> syscall list \<times> world" where
  "writefat_loop dev fat i (ret, calls, w) =
     (if i < bpbFATs (boot fat) then
        (let off = writefat_off (boot fat) i; fatsz = fatsize fat in
         if sys_lseek dev i off \<noteq> off
         then writefat_loop dev fat (i + 1)
                (FSFATAL, calls @ [Lseek off], perr UnableToWriteFAT w)
         else if sys_write dev i fatsz \<noteq> fatsz
         then writefat_loop dev fat (i + 1)
                (FSFATAL, calls @ [Lseek off, Write off fatsz], perr UnableToWriteFAT w)
         else writefat_loop dev fat (i + 1) (ret, calls @ [Lseek off, Write off fatsz], w))
      else (ret, calls, w))"
  by pat_completeness auto
termination
  by (relation "measure (\<lambda>(dev, fat, i, s). unat (bpbFATs (boot fat)) - unat i)")
     (auto simp: word_less_nat_alt unat_plus_1_less)

declare writefat_loop.simps [simp del]

definition writefat :: "device \<Rightarrow> world \<Rightarrow> fat_descriptor \<Rightarrow> 32 word \<times> syscall list \<times> world" where
  "writefat dev w fat = writefat_loop dev fat (if is_mmapped fat then 1 else 0) (FSOK, [], w)"

subsection \<open>The decode, in arithmetic on the bytes\<close>

text \<open>
  The number that \<open>n\<close> bytes at offset \<open>p\<close> of a buffer make, least significant byte
  first.
\<close>

fun le_value :: "(nat \<Rightarrow> u_char) \<Rightarrow> nat \<Rightarrow> nat \<Rightarrow> nat" where
  "le_value buf p 0 = 0"
| "le_value buf p (Suc n) = unat (buf p) + 256 * le_value buf (Suc p) n"

text \<open>
  The entry of cluster \<open>cl\<close>, masked with the mask of the width (\<^verbatim>\<open>CLUST12_MASK\<close>,
  \<^verbatim>\<open>CLUST16_MASK\<close>, \<^verbatim>\<open>CLUST32_MASK\<close>): the slot is at byte \<open>cl + cl div 2\<close>, \<open>2 * cl\<close> or
  \<open>4 * cl\<close>; a FAT12 entry is the low 12 bits of the 16-bit slot for an even cluster and
  the high 12 bits for an odd one; a FAT32 entry is the low 28 bits of the 32-bit slot.
\<close>

definition entry12_spec :: "(nat \<Rightarrow> u_char) \<Rightarrow> nat \<Rightarrow> nat" where
  "entry12_spec buf cl =
     (let v = le_value buf (cl + cl div 2) 2 in if even cl then v mod 2 ^ 12 else v div 2 ^ 4)"

definition entry16_spec :: "(nat \<Rightarrow> u_char) \<Rightarrow> nat \<Rightarrow> nat" where
  "entry16_spec buf cl = le_value buf (2 * cl) 2"

definition entry32_spec :: "(nat \<Rightarrow> u_char) \<Rightarrow> nat \<Rightarrow> nat" where
  "entry32_spec buf cl = le_value buf (4 * cl) 4 mod 2 ^ 28"

text \<open>
  Sign extension of a masked value \<open>v\<close> for the mask \<open>m\<close>: exactly when \<open>v\<close> is at least
  \<^verbatim>\<open>CLUST_BAD & m\<close>, the bits \<^verbatim>\<open>~m\<close> are added.
\<close>

definition sign_extend :: "cl_t \<Rightarrow> nat \<Rightarrow> nat" where
  "sign_extend m v = (if v \<ge> unat (CLUST_BAD AND m) then v + unat (NOT m) else v)"

text \<open>
  The decode as the specification words it for a width of \<open>n\<close> bits, of the value \<open>v\<close> of
  the slot: \<open>v\<close> masked to \<open>n\<close> bits, with the bits above them added exactly when the
  masked value is at least \<^verbatim>\<open>CLUST_BAD\<close> masked to \<open>n\<close> bits.
\<close>

definition stated_decode :: "nat \<Rightarrow> nat \<Rightarrow> nat" where
  "stated_decode n v =
     (let r = v mod 2 ^ n
      in if r \<ge> unat CLUST_BAD mod 2 ^ n then r + (2 ^ 32 - 2 ^ n) else r)"

text \<open>
  The specification's conclusion: the decoded value \<open>d\<close> of a masked entry \<open>r\<close> compares
  with each of the 32-bit sentinels \<^verbatim>\<open>CLUST_RSRVD\<close>, \<^verbatim>\<open>CLUST_BAD\<close> and \<^verbatim>\<open>CLUST_EOFS\<close> as \<open>r\<close>
  compares with that sentinel masked to the width.
\<close>

definition uniform_sentinels :: "cl_t \<Rightarrow> nat \<Rightarrow> cl_t \<Rightarrow> bool" where
  "uniform_sentinels m r d =
     ((d \<ge> CLUST_RSRVD) = (r \<ge> unat (CLUST_RSRVD AND m))
      \<and> (d = CLUST_BAD) = (r = unat (CLUST_BAD AND m))
      \<and> (d \<ge> CLUST_EOFS) = (r \<ge> unat (CLUST_EOFS AND m)))"

text \<open>
  What the code gives instead: the comparisons with \<^verbatim>\<open>CLUST_BAD\<close>, \<^verbatim>\<open>CLUST_EOFS\<close> and
  \<^verbatim>\<open>CLUST_FREE\<close> are those of the width, and the decoded value reaches \<^verbatim>\<open>CLUST_RSRVD\<close> only
  when the masked entry reaches \<^verbatim>\<open>CLUST_BAD & m\<close>: a masked entry below that, the reserved
  value \<^verbatim>\<open>CLUST_RSRVD & m\<close> among them, is not extended.
\<close>

definition sentinels_from_bad :: "cl_t \<Rightarrow> nat \<Rightarrow> cl_t \<Rightarrow> bool" where
  "sentinels_from_bad m r d =
     ((d = CLUST_BAD) = (r = unat (CLUST_BAD AND m))
      \<and> (d \<ge> CLUST_EOFS) = (r \<ge> unat (CLUST_EOFS AND m))
      \<and> (d < CLUST_BAD) = (r < unat (CLUST_BAD AND m))
      \<and> (d \<ge> CLUST_RSRVD) = (r \<ge> unat (CLUST_BAD AND m))
      \<and> (d = CLUST_FREE) = (r = 0))"

subsection \<open>The scanner's counts, as the specification words them\<close>

text \<open>
  The decoded next value of a cluster (the value \<^verbatim>\<open>fat_get_cl_next\<close> returns; it does not
  depend on the world), and the number of clusters \<open>cl\<close> with
  \<^verbatim>\<open>CLUST_FIRST <= cl < NumClusters\<close> whose decoded next value is \<open>v\<close>.
\<close>

definition next_of :: "fat_descriptor \<Rightarrow> cl_t \<Rightarrow> cl_t" where
  "next_of fat cl = fst (fat_get_cl_next \<lparr>rdonly = False, answers = [], diags = []\<rparr> fat cl)"



subsection \<open>Chains, as the specification words them\<close>

text \<open>
  \<open>chain fat c cs\<close>: \<open>cs\<close> is the chain that starts at cluster \<open>c\<close>: valid clusters, each
  the decoded next value of the one before, and the decoded next value of the last one is
  an end-of-file mark.
\<close>

inductive chain :: "fat_descriptor \<Rightarrow> cl_t \<Rightarrow> cl_t list \<Rightarrow> bool" for fat where
  chain_end:
    "fat_is_cl_valid fat c \<Longrightarrow> \<not> fat_is_cl_valid fat (next_of fat c) \<Longrightarrow>
     next_of fat c \<ge> CLUST_EOFS \<Longrightarrow> chain fat c [c]"
| chain_link:
    "fat_is_cl_valid fat c \<Longrightarrow> fat_is_cl_valid fat (next_of fat c) \<Longrightarrow>
     chain fat (next_of fat c) cs \<Longrightarrow> chain fat c (c # cs)"

code_pred chain .

text \<open>
  \<open>path fat c cs\<close>: \<open>cs\<close> is a sequence of valid clusters that starts at \<open>c\<close>, each the
  decoded next value of the one before.
\<close>

inductive path :: "fat_descriptor \<Rightarrow> cl_t \<Rightarrow> cl_t list \<Rightarrow> bool" for fat where
  path_one: "fat_is_cl_valid fat c \<Longrightarrow> path fat c [c]"
| path_link:
    "fat_is_cl_valid fat c \<Longrightarrow> path fat (next_of fat c) cs \<Longrightarrow> path fat c (c # cs)"

code_pred path .

text \<open>
  \<open>defect_walk fat head cs\<close>: \<open>cs\<close> is the walk from \<open>head\<close> to a defect. Its clusters are
  distinct and not yet used, and the decoded next value of its last cluster, the current
  cluster where the walk stops, is a cross-link (a valid cluster that is used already or
  lies on the walk) or a bad terminator (not a valid cluster and below \<^verbatim>\<open>CLUST_EOFS\<close>).
\<close>

definition defect_walk :: "fat_descriptor \<Rightarrow> cl_t \<Rightarrow> cl_t list \<Rightarrow> bool" where
  "defect_walk fat head cs =
     (path fat head cs \<and> distinct cs \<and> (\<forall>c \<in> set cs. \<not> fat_is_cl_used fat c)
      \<and> (let n = next_of fat (last cs)
         in if fat_is_cl_valid fat n then fat_is_cl_used fat n \<or> n \<in> set cs
            else n < CLUST_EOFS))"

subsection \<open>The writer, as the specification words it\<close>

text \<open>
  The copies the writer goes through: every index below \<^verbatim>\<open>bpbFATs\<close>, but for index 0 when
  the primary FAT is mapped. What it does for copy \<open>i\<close>: seek to the offset of the copy, and
  write \<^verbatim>\<open>fatsize\<close> bytes there unless the seek failed. The copy has failed when the seek
  did not end at the offset or the write was short.
\<close>

definition copy_calls :: "device \<Rightarrow> fat_descriptor \<Rightarrow> nat \<Rightarrow> syscall list" where
  "copy_calls dev fat i =
     (let off = writefat_off (boot fat) (of_nat i) in
      if sys_lseek dev (of_nat i) off \<noteq> off then [Lseek off]
      else [Lseek off, Write off (fatsize fat)])"

definition copy_failed :: "device \<Rightarrow> fat_descriptor \<Rightarrow> nat \<Rightarrow> bool" where
  "copy_failed dev fat i =
     (let off = writefat_off (boot fat) (of_nat i) in
      sys_lseek dev (of_nat i) off \<noteq> off
      \<or> sys_write dev (of_nat i) (fatsize fat) \<noteq> fatsize fat)"

definition copies :: "fat_descriptor \<Rightarrow> nat list" where
  "copies fat = [(if is_mmapped fat then 1 else 0) ..< unat (bpbFATs (boot fat))]"

subsection \<open>Sample volumes\<close>

text \<open>A buffer holding the given bytes (and zero behind them).\<close>

definition bytes_buf :: "u_char list \<Rightarrow> nat \<Rightarrow> u_char" where
  "bytes_buf bs i = (if i < length bs then bs ! i else 0)"

text \<open>
  The clean FAT16 volume of the spec's first scenario: 16 clusters, media byte
  \<^verbatim>\<open>0xF8\<close>, entries 0 and 1 \<^verbatim>\<open>F8 FF FF FF\<close>, the chain 2, 3, EOF, and clusters 4 to 15 free.
\<close>

definition boot16 :: bootblock where
  "boot16 = \<lparr>bpbBytesPerSec = 512, bpbResSectors = 1, bpbFATs = 2, bpbMedia = 0xf8,
             FATsecs = 1, ClustMask = CLUST16_MASK, NumClusters = 16,
             NumFree = 0, NumBad = 0\<rparr>"

definition image16 :: "u_char list" where
  "image16 = [0xf8, 0xff, 0xff, 0xff, 0x03, 0x00, 0xff, 0xff]"

text \<open>The descriptor as \<^verbatim>\<open>readfat\<close> builds it before it scans.\<close>

definition fat16_loaded :: fat_descriptor where
  "fat16_loaded = \<lparr>boot = boot16, fatbuf = bytes_buf image16,
                    usedbitmap = bitmap_ctor 16 False, headbitmap = bitmap_ctor 16 True,
                    is_mmapped = False, fatsize = 512\<rparr>"

text \<open>The descriptor after the scan: clusters 4 to 15 are free, and the head bits of
  clusters 3 to 15 are cleared.\<close>

definition fat16_scanned :: fat_descriptor where
  "fat16_scanned = \<lparr>boot = boot16\<lparr>NumFree := 12\<rparr>, fatbuf = bytes_buf image16,
      usedbitmap = \<lparr>map_words = (\<lambda>_. 0), count_bits = 0\<rparr>,
      headbitmap = \<lparr>map_words = (\<lambda>_. - 1)(0 := 0xffffffffffff0007), count_bits = 3\<rparr>,
      is_mmapped = False, fatsize = 512\<rparr>"

text \<open>
  The descriptor after \<^verbatim>\<open>checkchain\<close> on cluster 2: clusters 2 and 3 are used and the head
  bit of cluster 2 is cleared.
\<close>

definition fat16_checked :: fat_descriptor where
  "fat16_checked = fat16_scanned
     \<lparr>usedbitmap := \<lparr>map_words = (\<lambda>_. 0)(0 := 0xc), count_bits = 2\<rparr>,
      headbitmap := \<lparr>map_words = (\<lambda>_. - 1)(0 := 0xffffffffffff0003), count_bits = 2\<rparr>\<rparr>"

text \<open>A FAT16 volume where cluster 2 continues with cluster 99, which is out of range.\<close>

definition fat16_out_of_range :: fat_descriptor where
  "fat16_out_of_range = fat16_loaded\<lparr>fatbuf := bytes_buf [0xf8, 0xff, 0xff, 0xff, 0x63, 0x00]\<rparr>"

text \<open>
  The checked volume with only cluster 2 freed, and with the whole chain 2, 3 freed.
\<close>

definition fat16_head_cleared :: fat_descriptor where
  "fat16_head_cleared = fat16_checked
     \<lparr>boot := boot16\<lparr>NumFree := 13\<rparr>,
      fatbuf := (bytes_buf image16)(4 := 0, 5 := 0),
      usedbitmap := \<lparr>map_words = (\<lambda>_. 0)(0 := 8), count_bits = 1\<rparr>\<rparr>"

definition fat16_chain_cleared :: fat_descriptor where
  "fat16_chain_cleared = fat16_checked
     \<lparr>boot := boot16\<lparr>NumFree := 14\<rparr>,
      fatbuf := (bytes_buf image16)(4 := 0, 5 := 0, 6 := 0, 7 := 0),
      usedbitmap := \<lparr>map_words = (\<lambda>_. 0), count_bits = 0\<rparr>\<rparr>"

text \<open>The same chain on a FAT12 volume, and a FAT32 volume where cluster 3 is bad.\<close>

definition boot12 :: bootblock where
  "boot12 = \<lparr>bpbBytesPerSec = 512, bpbResSectors = 1, bpbFATs = 2, bpbMedia = 0xf8,
             FATsecs = 1, ClustMask = CLUST12_MASK, NumClusters = 16,
             NumFree = 0, NumBad = 0\<rparr>"

definition image12 :: "u_char list" where
  "image12 = [0xf8, 0xff, 0xff, 0x03, 0xf0, 0xff]"

definition fat12_loaded :: fat_descriptor where
  "fat12_loaded = \<lparr>boot = boot12, fatbuf = bytes_buf image12,
                    usedbitmap = bitmap_ctor 16 False, headbitmap = bitmap_ctor 16 True,
                    is_mmapped = False, fatsize = 512\<rparr>"

definition boot32 :: bootblock where
  "boot32 = \<lparr>bpbBytesPerSec = 512, bpbResSectors = 32, bpbFATs = 2, bpbMedia = 0xf8,
             FATsecs = 1, ClustMask = CLUST32_MASK, NumClusters = 16,
             NumFree = 0, NumBad = 0\<rparr>"

definition image32 :: "u_char list" where
  "image32 = [0xf8, 0xff, 0xff, 0x0f, 0xff, 0xff, 0xff, 0x0f,
              0x03, 0x00, 0x00, 0x00, 0xf7, 0xff, 0xff, 0xff]"

definition fat32_loaded :: fat_descriptor where
  "fat32_loaded = \<lparr>boot = boot32, fatbuf = bytes_buf image32,
                    usedbitmap = bitmap_ctor 16 False, headbitmap = bitmap_ctor 16 True,
                    is_mmapped = True, fatsize = 512\<rparr>"

text \<open>
  A FAT32 volume where the slot of cluster 2 is \<^verbatim>\<open>03 00 00 F0\<close> (the value \<^verbatim>\<open>0xF0000003\<close>), and
  a FAT16 volume where the entry of cluster 2 is \<^verbatim>\<open>F6 FF\<close>, the reserved value \<^verbatim>\<open>CLUST_RSRVD\<close>
  masked to 16 bits.
\<close>

definition fat32_high_bits :: fat_descriptor where
  "fat32_high_bits = fat32_loaded
     \<lparr>fatbuf := bytes_buf [0xf8, 0xff, 0xff, 0x0f, 0xff, 0xff, 0xff, 0x0f,
                            0x03, 0x00, 0x00, 0xf0]\<rparr>"

definition fat16_reserved :: fat_descriptor where
  "fat16_reserved = fat16_loaded\<lparr>fatbuf := bytes_buf [0xf8, 0xff, 0xff, 0xff, 0xf6, 0xff]\<rparr>"



text \<open>
  The cross-link of the spec's second scenario on a FAT16 volume: the chains 2, 4, 5, EOF
  and 3, 4 and so on, after the scan and after \<^verbatim>\<open>checkchain\<close> on cluster 2 (clusters 2, 4 and 5
  are used, cluster 3 is still a head); and the descriptor after \<^verbatim>\<open>checkchain\<close> on cluster
  3 has cut the chain there.
\<close>

definition image16_crossed :: "u_char list" where
  "image16_crossed = [0xf8, 0xff, 0xff, 0xff, 0x04, 0x00, 0x04, 0x00, 0x05, 0x00, 0xff, 0xff]"

definition fat16_crossed :: fat_descriptor where
  "fat16_crossed = \<lparr>boot = boot16\<lparr>NumFree := 10\<rparr>, fatbuf = bytes_buf image16_crossed,
      usedbitmap = \<lparr>map_words = (\<lambda>_. 0)(0 := 0x34), count_bits = 3\<rparr>,
      headbitmap = \<lparr>map_words = (\<lambda>_. - 1)(0 := 0xffffffffffff000b), count_bits = 3\<rparr>,
      is_mmapped = False, fatsize = 512\<rparr>"

definition fat16_crossed_cut :: fat_descriptor where
  "fat16_crossed_cut = fat16_crossed
     \<lparr>fatbuf := (bytes_buf image16_crossed)(6 := 0xff, 7 := 0xff),
      usedbitmap := \<lparr>map_words = (\<lambda>_. 0)(0 := 0x3c), count_bits = 4\<rparr>,
      headbitmap := \<lparr>map_words = (\<lambda>_. - 1)(0 := 0xffffffffffff0003), count_bits = 2\<rparr>\<rparr>"

text \<open>A device where the seek for copy 0 fails and everything else succeeds.\<close>

definition device_fails_first :: device where
  "device_fails_first = \<lparr>sys_lseek = (\<lambda>i off. if i = 0 then 0 else off),
                          sys_write = (\<lambda>i n. n)\<rparr>"

definition world_rw :: world where
  "world_rw = \<lparr>rdonly = False, answers = [], diags = []\<rparr>"

definition world_ro :: world where
  "world_ro = \<lparr>rdonly = True, answers = [], diags = []\<rparr>"

text \<open>A world where the operator answers yes once.\<close>

definition world_yes :: world where
  "world_yes = \<lparr>rdonly = False, answers = [True], diags = []\<rparr>"

section \<open>Theorems\<close>

subsection \<open>The generic accessors\<close>

text \<open>
  C6. When the global \<^verbatim>\<open>rdonly\<close> flag is set, \<^verbatim>\<open>fat_set_cl_next\<close> returns FSFATAL for
  every cluster and value, leaves the descriptor (so the in-memory FAT buffer) exactly
  as it was, and does nothing but note " (NO WRITE)".
\<close>

theorem fat_set_cl_next_rdonly:
  "rdonly w \<Longrightarrow>
     fat_set_cl_next w fat cl nextcl = (FSFATAL, fat, pwarn NoWrite w)
     \<and> fatbuf (fst (snd (fat_set_cl_next w fat cl nextcl))) = fatbuf fat"
  by (simp add: fat_set_cl_next_def)

theorem fat_set_cl_next_rdonly_witness:
  "rdonly world_ro
   \<and> fat_set_cl_next world_ro fat16_loaded 2 CLUST_EOF
       = (FSFATAL, fat16_loaded, pwarn NoWrite world_ro)
   \<and> fatbuf (fst (snd (fat_set_cl_next world_ro fat16_loaded 2 CLUST_EOF)))
       = fatbuf fat16_loaded"
  using fat_set_cl_next_rdonly[of world_ro fat16_loaded 2 CLUST_EOF]
  by (simp add: world_ro_def)

text \<open>
  C7. For a cluster argument below \<^verbatim>\<open>CLUST_FIRST\<close> or not below \<^verbatim>\<open>NumClusters\<close>,
  \<^verbatim>\<open>fat_get_cl_next\<close> reports \<^verbatim>\<open>pfatal\<close> and returns \<^verbatim>\<open>CLUST_DEAD\<close>, whatever the FAT buffer
  holds, and \<^verbatim>\<open>fat_set_cl_next\<close> returns FSFATAL and leaves the descriptor (so the buffer)
  as it was; its diagnostic is the \<^verbatim>\<open>pfatal\<close>, or the " (NO WRITE)" note under \<^verbatim>\<open>rdonly\<close>.
\<close>

theorem accessors_invalid_cluster:
  assumes "cl < CLUST_FIRST \<or> cl \<ge> NumClusters (boot fat)"
  shows "fat_get_cl_next w fat cl = (CLUST_DEAD, pfatal (InvalidCluster cl) w)
         \<and> fat_get_cl_next w (fat\<lparr>fatbuf := b\<rparr>) cl = fat_get_cl_next w fat cl
         \<and> fat_set_cl_next w fat cl nextcl
             = (FSFATAL, fat,
                if rdonly w then pwarn NoWrite w else pfatal (InvalidCluster cl) w)"
  using assms by (auto simp: fat_get_cl_next_def fat_set_cl_next_def)

theorem accessors_invalid_cluster_witness:
  "((1 :: cl_t) < CLUST_FIRST \<or> 1 \<ge> NumClusters (boot fat16_loaded))
   \<and> ((16 :: cl_t) < CLUST_FIRST \<or> 16 \<ge> NumClusters (boot fat16_loaded))
   \<and> fat_get_cl_next world_rw fat16_loaded 1 = (CLUST_DEAD, pfatal (InvalidCluster 1) world_rw)
   \<and> fat_get_cl_next world_rw fat16_loaded 16 = (CLUST_DEAD, pfatal (InvalidCluster 16) world_rw)
   \<and> fat_set_cl_next world_rw fat16_loaded 16 CLUST_EOF
       = (FSFATAL, fat16_loaded, pfatal (InvalidCluster 16) world_rw)"
  using accessors_invalid_cluster[of 1 fat16_loaded world_rw "fatbuf fat16_loaded" CLUST_EOF]
    accessors_invalid_cluster[of 16 fat16_loaded world_rw "fatbuf fat16_loaded" CLUST_EOF]
  by (simp add: CLUST_FIRST_def fat16_loaded_def boot16_def world_rw_def)

subsection \<open>The width codec\<close>

lemma unat_u_char_less: "unat (b :: u_char) < 256"
  using unsigned_less[of b, where 'a=nat] by simp

lemma unat_ucast_u_char_16: "unat (ucast (b::u_char) :: 16 word) = unat b"
  by (simp add: unsigned_ucast_eq take_bit_nat_eq_self_iff) (use unat_u_char_less[of b] in simp)

lemma unat_ucast_u_char_32: "unat (ucast (b::u_char) :: 32 word) = unat b"
  by (simp add: unsigned_ucast_eq take_bit_nat_eq_self_iff) (use unat_u_char_less[of b] in simp)

lemma unat_ucast_16_32: "unat (ucast (b::16 word) :: 32 word) = unat b"
  by (simp add: unsigned_ucast_eq take_bit_nat_eq_self_iff) (use unsigned_less[of b, where 'a=nat] in simp)

lemma le_value_2: "le_value buf p 2 = unat (buf p) + 256 * unat (buf (p + 1))"
proof -
  have "(2::nat) = Suc (Suc 0)" by simp
  then have "le_value buf p 2 = le_value buf p (Suc (Suc 0))" by (simp only:)
  then show ?thesis by simp
qed

lemma le_value_4:
  "le_value buf p 4 =
     unat (buf p) + 256 * unat (buf (p + 1)) + 65536 * unat (buf (p + 2))
       + 16777216 * unat (buf (p + 3))"
proof -
  have "(4::nat) = Suc (Suc (Suc (Suc 0)))" by simp
  then have "le_value buf p 4 = le_value buf p (Suc (Suc (Suc (Suc 0))))" by (simp only:)
  then show ?thesis by (simp add: numeral_2_eq_2 numeral_3_eq_3)
qed

lemma unat_le16dec: "unat (le16dec buf p) = le_value buf p 2"
proof -
  have "push_bit 8 (ucast (buf (p + 1))) OR ucast (buf p) = (push_bit 8 (ucast (buf (p + 1))) + ucast (buf p) :: 16 word)"
    by (rule disjunctive_add[symmetric]) (auto simp: bit_simps dest: bit_imp_le_length)
  moreover have "unat (push_bit 8 (ucast (buf (p + 1)) :: 16 word)) = 256 * unat (buf (p + 1))"
    using unat_u_char_less[of "buf (p+1)"]
    by (simp add: push_bit_eq_mult unat_word_ariths unat_ucast_u_char_16)
  ultimately show ?thesis
    using unat_u_char_less[of "buf p"] unat_u_char_less[of "buf (p+1)"]
    by (simp add: le16dec_def unat_word_ariths unat_ucast_u_char_16 le_value_2)
qed

lemma unat_le32dec: "unat (le32dec buf p) = le_value buf p 4"
proof -
  let ?b0 = "ucast (buf p) :: 32 word" and ?b1 = "ucast (buf (p + 1)) :: 32 word"
    and ?b2 = "ucast (buf (p + 2)) :: 32 word" and ?b3 = "ucast (buf (p + 3)) :: 32 word"
  have a: "push_bit 8 ?b1 OR ?b0 = push_bit 8 ?b1 + ?b0"
    by (rule disjunctive_add[symmetric]) (auto simp: bit_simps dest: bit_imp_le_length)
  have b: "push_bit 16 ?b2 OR (push_bit 8 ?b1 OR ?b0) = push_bit 16 ?b2 + (push_bit 8 ?b1 OR ?b0)"
    by (rule disjunctive_add[symmetric]) (auto simp: bit_simps dest: bit_imp_le_length)
  have c: "push_bit 24 ?b3 OR (push_bit 16 ?b2 OR (push_bit 8 ?b1 OR ?b0))
       = push_bit 24 ?b3 + (push_bit 16 ?b2 OR (push_bit 8 ?b1 OR ?b0))"
    by (rule disjunctive_add[symmetric]) (auto simp: bit_simps dest: bit_imp_le_length)
  have d: "le32dec buf p = push_bit 24 ?b3 + (push_bit 16 ?b2 + (push_bit 8 ?b1 + ?b0))"
    unfolding le32dec_def using a b c by (simp add: or.assoc)
  show ?thesis
    unfolding d
    using unat_u_char_less[of "buf p"] unat_u_char_less[of "buf (p+1)"]
      unat_u_char_less[of "buf (p+2)"] unat_u_char_less[of "buf (p+3)"]
    by (simp add: push_bit_eq_mult unat_word_ariths unat_ucast_u_char_32 le_value_4)
qed


lemma unat_and_mask: "unat ((x :: 32 word) AND mask n) = unat x mod 2 ^ n"
proof -
  have "x AND mask n = take_bit n x" by (simp add: take_bit_eq_mask)
  then have "unat (x AND mask n) = take_bit n (unat x)" by (simp only: unsigned_take_bit_eq)
  then show ?thesis by (simp add: take_bit_eq_mod)
qed

lemma take_bit_self32: "unat (x :: 32 word) < 2 ^ n \<Longrightarrow> take_bit n x = x"
  by (metis take_bit_nat_eq_self unsigned_take_bit_eq word_unat_eq_iff)

lemma or_not_mask_add:
  fixes x :: "32 word"
  assumes "unat x < 2 ^ n"
  shows "x OR NOT (mask n) = x + NOT (mask n)"
proof -
  have "take_bit n x OR NOT (mask n) = take_bit n x + NOT (mask n)"
    by (rule disjunctive_add[symmetric]) (auto simp: bit_simps)
  with take_bit_self32[OF assms] show ?thesis by simp
qed

lemma masks_as_mask:
  "CLUST12_MASK = mask 12" "CLUST16_MASK = mask 16" "CLUST32_MASK = mask 28"
  by (simp_all add: CLUST12_MASK_def CLUST16_MASK_def CLUST32_MASK_def mask_eq_exp_minus_1)

lemma unat_sign_extend12:
  fixes x :: "32 word"
  assumes "unat x < 2 ^ 12"
  shows "unat (if x \<ge> (CLUST_BAD AND CLUST12_MASK) then x OR NOT CLUST12_MASK else x)
           = sign_extend CLUST12_MASK (unat x)"
proof -
  have "x OR NOT CLUST12_MASK = x + 0xfffff000"
    using or_not_mask_add[OF assms] by (simp add: CLUST12_MASK_def mask_eq_exp_minus_1)
  then show ?thesis using assms
    by (simp add: sign_extend_def CLUST_BAD_def CLUST12_MASK_def word_le_nat_alt unat_word_ariths)
qed

lemma unat_sign_extend16:
  fixes x :: "32 word"
  assumes "unat x < 2 ^ 16"
  shows "unat (if x \<ge> (CLUST_BAD AND CLUST16_MASK) then x OR NOT CLUST16_MASK else x)
           = sign_extend CLUST16_MASK (unat x)"
proof -
  have "x OR NOT CLUST16_MASK = x + 0xffff0000"
    using or_not_mask_add[OF assms] by (simp add: CLUST16_MASK_def mask_eq_exp_minus_1)
  then show ?thesis using assms
    by (simp add: sign_extend_def CLUST_BAD_def CLUST16_MASK_def word_le_nat_alt unat_word_ariths)
qed

lemma unat_sign_extend32:
  fixes x :: "32 word"
  assumes "unat x < 2 ^ 28"
  shows "unat (if x \<ge> (CLUST_BAD AND CLUST32_MASK) then x OR NOT CLUST32_MASK else x)
           = sign_extend CLUST32_MASK (unat x)"
proof -
  have "x OR NOT CLUST32_MASK = x + 0xf0000000"
    using or_not_mask_add[OF assms] by (simp add: CLUST32_MASK_def mask_eq_exp_minus_1)
  then show ?thesis using assms
    by (simp add: sign_extend_def CLUST_BAD_def CLUST32_MASK_def word_le_nat_alt unat_word_ariths)
qed

lemma fat_get_fat16_next_spec:
  assumes "unat cl < 2 ^ 31"
  shows "unat (fat_get_fat16_next fat cl) = sign_extend CLUST16_MASK (entry16_spec (fatbuf fat) (unat cl))"
proof -
  have p: "fat_get_fat16_ptr cl = 2 * unat cl"
    using assms by (simp add: fat_get_fat16_ptr_def push_bit_eq_mult unat_word_ariths)
  let ?x = "(ucast (le16dec (fatbuf fat) (2 * unat cl)) :: cl_t) AND CLUST16_MASK"
  have x: "unat ?x = le_value (fatbuf fat) (2 * unat cl) 2"
    using unsigned_less[of "le16dec (fatbuf fat) (2 * unat cl)", where 'a=nat]
    by (simp add: masks_as_mask unat_and_mask unat_ucast_16_32 unat_le16dec)
  then have "unat ?x < 2 ^ 16"
    using unsigned_less[of "le16dec (fatbuf fat) (2 * unat cl)", where 'a=nat]
    by (simp add: unat_le16dec)
  from unat_sign_extend16[OF this] show ?thesis
    by (simp add: fat_get_fat16_next_def p Let_def entry16_spec_def x)
qed

lemma fat_get_fat32_next_spec:
  assumes "unat cl < 2 ^ 30"
  shows "unat (fat_get_fat32_next fat cl) = sign_extend CLUST32_MASK (entry32_spec (fatbuf fat) (unat cl))"
proof -
  have p: "fat_get_fat32_ptr cl = 4 * unat cl"
    using assms by (simp add: fat_get_fat32_ptr_def push_bit_eq_mult unat_word_ariths)
  let ?x = "le32dec (fatbuf fat) (4 * unat cl) AND CLUST32_MASK"
  have x: "unat ?x = le_value (fatbuf fat) (4 * unat cl) 4 mod 2 ^ 28"
    by (simp only: masks_as_mask unat_and_mask unat_le32dec)
  then have "unat ?x < 2 ^ 28"
    by simp
  from unat_sign_extend32[OF this] show ?thesis
    by (simp add: fat_get_fat32_next_def p Let_def entry32_spec_def x)
qed


lemma and_1_odd: "((cl :: 32 word) AND 1 = 1) = odd (unat cl)"
proof -
  have "odd (unat cl) = bit (unat cl) 0" by (simp add: bit_0)
  also have "\<dots> = bit cl 0" by (simp add: bit_unsigned_iff)
  also have "\<dots> = odd cl" by (simp add: bit_0)
  finally have "odd (unat cl) = odd cl" .
  moreover have "(cl AND 1 = 1) = odd cl" by (simp add: and_one_eq odd_iff_mod_2_eq_one)
  ultimately show ?thesis by simp
qed

lemma fat_get_fat12_ptr_nat:
  assumes "unat cl < 2 ^ 31"
  shows "fat_get_fat12_ptr cl = unat cl + unat cl div 2"
  using assms
  by (simp add: fat_get_fat12_ptr_def unat_word_ariths unat_drop_bit_eq drop_bit_eq_div)

lemma fat_get_fat12_next_spec:
  assumes "unat cl < 2 ^ 31"
  shows "unat (fat_get_fat12_next fat cl) = sign_extend CLUST12_MASK (entry12_spec (fatbuf fat) (unat cl))"
proof -
  let ?p = "unat cl + unat cl div 2"
  let ?r = "ucast (le16dec (fatbuf fat) ?p) :: cl_t"
  let ?x = "(if cl AND 1 = 1 then drop_bit 4 ?r else ?r) AND CLUST12_MASK"
  have r: "unat ?r = le_value (fatbuf fat) ?p 2"
    by (simp add: unat_ucast_16_32 unat_le16dec)
  have r16: "unat ?r < 2 ^ 16"
    using unsigned_less[of "le16dec (fatbuf fat) ?p", where 'a=nat]
    by (simp add: unat_ucast_16_32)
  have x: "unat ?x = entry12_spec (fatbuf fat) (unat cl)"
  proof (cases "odd (unat cl)")
    case True
    have "unat (drop_bit 4 ?r) < 2 ^ 12"
      using r16 by (simp add: drop_bit_eq_div unat_div_distrib)
    then show ?thesis using True r
      by (simp add: and_1_odd masks_as_mask unat_and_mask entry12_spec_def
          drop_bit_eq_div unat_div_distrib)
  next
    case False
    then show ?thesis using r
      by (simp add: and_1_odd masks_as_mask unat_and_mask entry12_spec_def)
  qed
  have "unat ?x < 2 ^ 12"
    by (simp add: masks_as_mask unat_and_mask)
  from unat_sign_extend12[OF this] show ?thesis
    by (simp add: fat_get_fat12_next_def fat_get_fat12_ptr_nat[OF assms] Let_def x)
qed



lemma le16dec_le16enc: "le16dec (le16enc buf p u) p = u"
  unfolding le16dec_def le16enc_def
  by (rule bit_word_eqI) (auto simp: bit_simps dest: bit_imp_le_length)

lemma numeral_mask_12: "(0xfff :: 32 word) = mask 12" by (simp add: mask_eq_exp_minus_1)
lemma numeral_high_nibble: "(0xf0 :: 32 word) = push_bit 4 (mask 4)" by (simp add: mask_eq_exp_minus_1)
lemma numeral_low_nibble: "(0x0f :: 32 word) = mask 4" by (simp add: mask_eq_exp_minus_1)
lemma numeral_slot_high_nibble: "(0xf000 :: 16 word) = push_bit 12 (mask 4)" by (simp add: mask_eq_exp_minus_1)
lemma numeral_slot_low_nibble: "(0x000f :: 16 word) = mask 4" by (simp add: mask_eq_exp_minus_1)

lemma fat12_even_entry_bits:
  "(ucast (ucast ((v AND 0xfff) OR push_bit 8 (ucast (b :: u_char) AND 0xf0) :: 32 word) :: 16 word) :: 32 word) AND 0xfff
     = v AND 0xfff"
  unfolding numeral_mask_12 numeral_high_nibble
  by (rule bit_word_eqI) (auto simp: bit_simps dest: bit_imp_le_length)

lemma fat12_odd_entry_bits:
  "drop_bit 4 (ucast (ucast (push_bit 4 (v AND 0xfff) OR (ucast (b :: u_char) AND 0x0f) :: 32 word) :: 16 word) :: 32 word) AND 0xfff
     = v AND 0xfff"
  unfolding numeral_mask_12 numeral_low_nibble
  by (rule bit_word_eqI) (auto simp: bit_simps dest: bit_imp_le_length)

lemma fat12_even_neighbour_bits:
  "(ucast ((v AND 0xfff) OR push_bit 8 (ucast (b1 :: u_char) AND 0xf0) :: 32 word) :: 16 word) AND 0xf000
     = (push_bit 8 (ucast b1) OR ucast (b0 :: u_char)) AND 0xf000"
  unfolding numeral_mask_12 numeral_high_nibble numeral_slot_high_nibble
  by (rule bit_word_eqI) (auto simp: bit_simps dest: bit_imp_le_length)

lemma fat12_odd_neighbour_bits:
  "(ucast (push_bit 4 (v AND 0xfff) OR (ucast (b0 :: u_char) AND 0x0f) :: 32 word) :: 16 word) AND 0x000f
     = (push_bit 8 (ucast b1) OR ucast (b0 :: u_char)) AND 0x000f"
  unfolding numeral_mask_12 numeral_low_nibble numeral_slot_low_nibble
  by (rule bit_word_eqI) (auto simp: bit_simps dest: bit_imp_le_length)

lemma sentinels_from_bad_sign_extend:
  assumes "unat d = sign_extend m r" "r \<le> unat m"
    "m = CLUST12_MASK \<or> m = CLUST16_MASK \<or> m = CLUST32_MASK"
  shows "sentinels_from_bad m r d"
proof -
  have c: "(d = CLUST_BAD) = (unat d = 4294967287)" "(d \<ge> CLUST_EOFS) = (unat d \<ge> 4294967288)"
    "(d < CLUST_BAD) = (unat d < 4294967287)" "(d = CLUST_FREE) = (unat d = 0)"
    "(d \<ge> CLUST_RSRVD) = (unat d \<ge> 4294967286)"
    by (simp_all add: CLUST_BAD_def CLUST_EOFS_def CLUST_FREE_def CLUST_RSRVD_def word_le_nat_alt
        word_less_nat_alt word_unat_eq_iff)
  from assms(3) show ?thesis
  proof (elim disjE)
    assume "m = CLUST12_MASK"
    then show ?thesis using assms(1,2) unfolding sentinels_from_bad_def c
      by (auto simp: sign_extend_def CLUST_BAD_def CLUST_EOFS_def CLUST12_MASK_def split: if_splits)
  next
    assume "m = CLUST16_MASK"
    then show ?thesis using assms(1,2) unfolding sentinels_from_bad_def c
      by (auto simp: sign_extend_def CLUST_BAD_def CLUST_EOFS_def CLUST16_MASK_def split: if_splits)
  next
    assume "m = CLUST32_MASK"
    then show ?thesis using assms(1,2) unfolding sentinels_from_bad_def c
      by (auto simp: sign_extend_def CLUST_BAD_def CLUST_EOFS_def CLUST32_MASK_def split: if_splits)
  qed
qed

lemma entry_spec_bounds:
  "entry12_spec buf c \<le> unat CLUST12_MASK"
  "entry16_spec buf c \<le> unat CLUST16_MASK"
  "entry32_spec buf c \<le> unat CLUST32_MASK"
proof -
  have v: "\<And>p. le_value buf p 2 < 65536"
    using unsigned_less[of "le16dec buf p" for p, where 'a=nat]
    by (simp add: unat_le16dec)
  have "le_value buf (c + c div 2) 2 div 16 < 4096"
    using v[of "c + c div 2"] by simp
  moreover have "le_value buf (c + c div 2) 2 mod 4096 \<le> 4095"
    using mod_less_divisor[of 4096 "le_value buf (c + c div 2) 2"] by linarith
  ultimately show "entry12_spec buf c \<le> unat CLUST12_MASK"
    by (simp add: entry12_spec_def CLUST12_MASK_def Let_def)
  show "entry16_spec buf c \<le> unat CLUST16_MASK"
    using v[of "2 * c"] by (simp add: entry16_spec_def CLUST16_MASK_def)
  have "le_value buf (4 * c) 4 mod 268435456 \<le> 268435455"
    using mod_less_divisor[of 268435456 "le_value buf (4 * c) 4"] by linarith
  then show "entry32_spec buf c \<le> unat CLUST32_MASK"
    by (simp add: entry32_spec_def CLUST32_MASK_def)
qed

text \<open>
  C4 (as amended). For each of the three widths and every valid cluster (of a FAT with at
  most \<open>2^28\<close> entries, so that the offset of the slot does not wrap), the generic reader
  returns, with no diagnostic, the sign extension of the masked entry: the little-endian
  slot at the offset of the width (\<open>cl + cl div 2\<close>, \<open>2 * cl\<close>, \<open>4 * cl\<close>), masked with the
  width's mask, which has 12, 16 and, for FAT32, 28 bits (the top four bits of a FAT32
  slot are dropped), with the bits \<^verbatim>\<open>~mask\<close> added exactly when the masked value is at least
  \<^verbatim>\<open>CLUST_BAD & mask\<close>. The result compares with \<^verbatim>\<open>CLUST_BAD\<close>, \<^verbatim>\<open>CLUST_EOFS\<close> and \<^verbatim>\<open>CLUST_FREE\<close> as
  the masked entry compares with the sentinels of the width; it is at least
  \<^verbatim>\<open>CLUST_RSRVD\<close> only when the masked entry is at least \<^verbatim>\<open>CLUST_BAD & mask\<close>, so the reserved
  value \<^verbatim>\<open>CLUST_RSRVD & mask\<close> itself is returned as it is, below \<^verbatim>\<open>CLUST_RSRVD\<close>.
\<close>

theorem fat_get_cl_next_decodes:
  assumes "fat_is_cl_valid fat cl" and "unat (NumClusters (boot fat)) \<le> 2 ^ 28"
  shows
    "(ClustMask (boot fat) = CLUST12_MASK \<longrightarrow>
        snd (fat_get_cl_next w fat cl) = w
        \<and> unat (fst (fat_get_cl_next w fat cl))
            = sign_extend CLUST12_MASK (entry12_spec (fatbuf fat) (unat cl))
        \<and> sentinels_from_bad CLUST12_MASK (entry12_spec (fatbuf fat) (unat cl))
              (fst (fat_get_cl_next w fat cl)))
     \<and> (ClustMask (boot fat) = CLUST16_MASK \<longrightarrow>
        snd (fat_get_cl_next w fat cl) = w
        \<and> unat (fst (fat_get_cl_next w fat cl))
            = sign_extend CLUST16_MASK (entry16_spec (fatbuf fat) (unat cl))
        \<and> sentinels_from_bad CLUST16_MASK (entry16_spec (fatbuf fat) (unat cl))
              (fst (fat_get_cl_next w fat cl)))
     \<and> (ClustMask (boot fat) = CLUST32_MASK \<longrightarrow>
        snd (fat_get_cl_next w fat cl) = w
        \<and> unat (fst (fat_get_cl_next w fat cl))
            = sign_extend CLUST32_MASK (entry32_spec (fatbuf fat) (unat cl))
        \<and> sentinels_from_bad CLUST32_MASK (entry32_spec (fatbuf fat) (unat cl))
              (fst (fat_get_cl_next w fat cl)))"
proof -
  from assms have v: "\<not> (cl < CLUST_FIRST \<or> cl \<ge> NumClusters (boot fat))"
    by (auto simp: fat_is_cl_valid_def)
  from assms have "unat cl < 2 ^ 28"
    by (simp add: fat_is_cl_valid_def word_less_nat_alt)
  then have b: "unat cl < 2 ^ 31" "unat cl < 2 ^ 30" by simp_all
  have m: "CLUST16_MASK \<noteq> CLUST12_MASK" "CLUST32_MASK \<noteq> CLUST12_MASK"
    "CLUST32_MASK \<noteq> CLUST16_MASK"
    by (simp_all add: CLUST12_MASK_def CLUST16_MASK_def CLUST32_MASK_def)
  have c12: "ClustMask (boot fat) = CLUST12_MASK \<Longrightarrow>
      fat_get_cl_next w fat cl = (fat_get_fat12_next fat cl, w)"
    and c16: "ClustMask (boot fat) = CLUST16_MASK \<Longrightarrow>
      fat_get_cl_next w fat cl = (fat_get_fat16_next fat cl, w)"
    and c32: "ClustMask (boot fat) = CLUST32_MASK \<Longrightarrow>
      fat_get_cl_next w fat cl = (fat_get_fat32_next fat cl, w)"
    using v m by (simp_all add: fat_get_cl_next_def)
  show ?thesis
    using c12 c16 c32
      fat_get_fat12_next_spec[OF b(1), of fat] fat_get_fat16_next_spec[OF b(1), of fat]
      fat_get_fat32_next_spec[OF b(2), of fat]
      sentinels_from_bad_sign_extend[OF fat_get_fat12_next_spec[OF b(1), of fat] entry_spec_bounds(1)]
      sentinels_from_bad_sign_extend[OF fat_get_fat16_next_spec[OF b(1), of fat] entry_spec_bounds(2)]
      sentinels_from_bad_sign_extend[OF fat_get_fat32_next_spec[OF b(2), of fat] entry_spec_bounds(3)]
    by simp
qed

theorem fat_get_cl_next_decodes_witness:
  "fat_is_cl_valid fat12_loaded 3 \<and> unat (NumClusters (boot fat12_loaded)) \<le> 2 ^ 28
   \<and> ClustMask (boot fat12_loaded) = CLUST12_MASK
   \<and> unat (fst (fat_get_cl_next world_rw fat12_loaded 3))
       = sign_extend CLUST12_MASK (entry12_spec (fatbuf fat12_loaded) 3)
   \<and> sign_extend CLUST12_MASK (entry12_spec (fatbuf fat12_loaded) 3) = 0xffffffff
   \<and> fat_is_cl_valid fat16_loaded 2 \<and> unat (NumClusters (boot fat16_loaded)) \<le> 2 ^ 28
   \<and> ClustMask (boot fat16_loaded) = CLUST16_MASK
   \<and> unat (fst (fat_get_cl_next world_rw fat16_loaded 2))
       = sign_extend CLUST16_MASK (entry16_spec (fatbuf fat16_loaded) 2)
   \<and> sign_extend CLUST16_MASK (entry16_spec (fatbuf fat16_loaded) 2) = 3
   \<and> fat_is_cl_valid fat32_loaded 3 \<and> unat (NumClusters (boot fat32_loaded)) \<le> 2 ^ 28
   \<and> ClustMask (boot fat32_loaded) = CLUST32_MASK
   \<and> unat (fst (fat_get_cl_next world_rw fat32_loaded 3))
       = sign_extend CLUST32_MASK (entry32_spec (fatbuf fat32_loaded) 3)
   \<and> sign_extend CLUST32_MASK (entry32_spec (fatbuf fat32_loaded) 3) = 0xfffffff7"
proof -
  have v12: "fat_is_cl_valid fat12_loaded 3" "unat (NumClusters (boot fat12_loaded)) \<le> 2 ^ 28"
    "ClustMask (boot fat12_loaded) = CLUST12_MASK"
    by (simp_all add: fat_is_cl_valid_def fat12_loaded_def boot12_def CLUST_FIRST_def)
  have v16: "fat_is_cl_valid fat16_loaded 2" "unat (NumClusters (boot fat16_loaded)) \<le> 2 ^ 28"
    "ClustMask (boot fat16_loaded) = CLUST16_MASK"
    by (simp_all add: fat_is_cl_valid_def fat16_loaded_def boot16_def CLUST_FIRST_def)
  have v32: "fat_is_cl_valid fat32_loaded 3" "unat (NumClusters (boot fat32_loaded)) \<le> 2 ^ 28"
    "ClustMask (boot fat32_loaded) = CLUST32_MASK"
    by (simp_all add: fat_is_cl_valid_def fat32_loaded_def boot32_def CLUST_FIRST_def)
  have e12: "sign_extend CLUST12_MASK (entry12_spec (fatbuf fat12_loaded) 3) = 0xffffffff"
    by (simp add: sign_extend_def entry12_spec_def fat12_loaded_def bytes_buf_def image12_def
        le_value_2 CLUST_BAD_def CLUST12_MASK_def)
  have e16: "sign_extend CLUST16_MASK (entry16_spec (fatbuf fat16_loaded) 2) = 3"
    by (simp add: sign_extend_def entry16_spec_def fat16_loaded_def bytes_buf_def image16_def
        le_value_2 CLUST_BAD_def CLUST16_MASK_def)
  have e32: "sign_extend CLUST32_MASK (entry32_spec (fatbuf fat32_loaded) 3) = 0xfffffff7"
    by (simp add: sign_extend_def entry32_spec_def fat32_loaded_def bytes_buf_def image32_def
        le_value_4 CLUST_BAD_def CLUST32_MASK_def)
  show ?thesis
    using fat_get_cl_next_decodes[OF v12(1,2), of world_rw]
      fat_get_cl_next_decodes[OF v16(1,2), of world_rw]
      fat_get_cl_next_decodes[OF v32(1,2), of world_rw]
      v12 v16 v32 e12 e16 e32
    by simp
qed

text \<open>
  C4 as stated fails twice. The FAT32 slot \<^verbatim>\<open>03 00 00 F0\<close> holds \<^verbatim>\<open>0xF0000003\<close>; masked to 32
  bits it is unchanged and below \<^verbatim>\<open>CLUST_BAD\<close>, so the decode as stated gives \<^verbatim>\<open>0xF0000003\<close>,
  and \<^verbatim>\<open>fat_get_cl_next\<close> returns 3: the mask has 28 bits. And the FAT16 entry \<^verbatim>\<open>F6 FF\<close> is
  \<^verbatim>\<open>CLUST_RSRVD\<close> masked to 16 bits; \<^verbatim>\<open>fat_get_cl_next\<close> returns \<^verbatim>\<open>0x0000FFF6\<close> for it, which is not
  at least \<^verbatim>\<open>CLUST_RSRVD\<close>: the comparison with \<^verbatim>\<open>CLUST_RSRVD\<close> is not that of the width.
\<close>

theorem fat_get_cl_next_decodes_counterexample:
  "fat_is_cl_valid fat32_high_bits 2
   \<and> le_value (fatbuf fat32_high_bits) (4 * 2) 4 = 0xf0000003
   \<and> stated_decode 32 (le_value (fatbuf fat32_high_bits) (4 * 2) 4) = 0xf0000003
   \<and> fst (fat_get_cl_next world_rw fat32_high_bits 2) = 3
   \<and> fat_is_cl_valid fat16_reserved 2
   \<and> entry16_spec (fatbuf fat16_reserved) 2 = unat (CLUST_RSRVD AND CLUST16_MASK)
   \<and> fst (fat_get_cl_next world_rw fat16_reserved 2) = 0xfff6
   \<and> \<not> fst (fat_get_cl_next world_rw fat16_reserved 2) \<ge> CLUST_RSRVD
   \<and> \<not> uniform_sentinels CLUST16_MASK (entry16_spec (fatbuf fat16_reserved) 2)
          (fst (fat_get_cl_next world_rw fat16_reserved 2))"
proof -
  have v: "fat_is_cl_valid fat32_high_bits 2" "fat_is_cl_valid fat16_reserved 2"
    by (simp_all add: fat_is_cl_valid_def fat32_high_bits_def fat32_loaded_def boot32_def
        fat16_reserved_def fat16_loaded_def boot16_def CLUST_FIRST_def)
  have l: "le_value (fatbuf fat32_high_bits) (4 * 2) 4 = 0xf0000003"
    by (simp add: fat32_high_bits_def bytes_buf_def le_value_4)
  have s: "stated_decode 32 0xf0000003 = 0xf0000003"
    by (simp add: stated_decode_def CLUST_BAD_def)
  have d32: "fst (fat_get_cl_next world_rw fat32_high_bits 2) = 3"
    by (simp add: fat_get_cl_next_def fat_get_fat32_next_def fat_get_fat32_ptr_def le32dec_def
        fat32_high_bits_def fat32_loaded_def boot32_def bytes_buf_def CLUST_FIRST_def
        CLUST12_MASK_def CLUST16_MASK_def CLUST32_MASK_def CLUST_BAD_def)
  have e16: "entry16_spec (fatbuf fat16_reserved) 2 = unat (CLUST_RSRVD AND CLUST16_MASK)"
    by (simp add: entry16_spec_def fat16_reserved_def bytes_buf_def le_value_2 CLUST_RSRVD_def
        CLUST16_MASK_def)
  have d16: "fst (fat_get_cl_next world_rw fat16_reserved 2) = 0xfff6"
    by (simp add: fat_get_cl_next_def fat_get_fat16_next_def fat_get_fat16_ptr_def le16dec_def
        fat16_reserved_def fat16_loaded_def boot16_def bytes_buf_def CLUST_FIRST_def
        CLUST12_MASK_def CLUST16_MASK_def CLUST_BAD_def)
  have r: "\<not> (0xfff6 :: cl_t) \<ge> CLUST_RSRVD" by (simp add: CLUST_RSRVD_def)
  have u: "\<not> uniform_sentinels CLUST16_MASK (unat (CLUST_RSRVD AND CLUST16_MASK)) 0xfff6"
    using r by (simp add: uniform_sentinels_def)
  from v l s d32 e16 d16 r u show ?thesis by simp
qed

lemma le16enc_other: "i \<noteq> p \<Longrightarrow> i \<noteq> p + 1 \<Longrightarrow> le16enc buf p u i = buf i"
  by (simp add: le16enc_def)

lemma and_1_cases: "(cl :: cl_t) AND 1 \<noteq> 0 \<Longrightarrow> cl AND 1 = 1"
  by (simp add: and_one_eq split: if_splits)

lemma le_fff_and:
  assumes "(v :: cl_t) \<le> 0xfff"
  shows "v AND 0xfff = v"
proof -
  have "unat v < 2 ^ 12" using assms by (simp add: word_le_nat_alt)
  then have "take_bit 12 v = v" by (rule take_bit_self32)
  moreover have "v AND mask 12 = take_bit 12 v" by (simp add: take_bit_eq_mask)
  ultimately show ?thesis by (simp only: numeral_mask_12)
qed

text \<open>
  C5. For every cluster \<open>cl\<close> and every value \<open>v \<le> 0xFFF\<close>, \<^verbatim>\<open>fat_get_fat12_next\<close> after
  \<^verbatim>\<open>fat_set_fat12_next\<close> on the same \<open>cl\<close> yields the sign extension of \<open>v\<close>; of the 16-bit
  slot of \<open>cl\<close>, the four bits of the neighbouring cluster (the high nibble for an even
  \<open>cl\<close>, the low nibble for an odd one) are unchanged, and so is every byte outside the
  slot.
\<close>

theorem fat12_round_trip:
  assumes "v \<le> 0xfff"
  shows "unat (fat_get_fat12_next (snd (fat_set_fat12_next fat cl v)) cl)
           = sign_extend CLUST12_MASK (unat v)
         \<and> (let p = fat_get_fat12_ptr cl;
                 old = le16dec (fatbuf fat) p;
                 new = le16dec (fatbuf (snd (fat_set_fat12_next fat cl v))) p
             in if cl AND 1 = 0 then new AND 0xf000 = old AND 0xf000
                else new AND 0x000f = old AND 0x000f)
         \<and> (\<forall>i. i \<noteq> fat_get_fat12_ptr cl \<and> i \<noteq> fat_get_fat12_ptr cl + 1 \<longrightarrow>
                fatbuf (snd (fat_set_fat12_next fat cl v)) i = fatbuf fat i)"
proof -
  let ?p = "fat_get_fat12_ptr cl"
  let ?fat' = "snd (fat_set_fat12_next fat cl v)"
  have v: "unat v < 2 ^ 12" using assms by (simp add: word_le_nat_alt)
  show ?thesis
  proof (cases "cl AND 1 = 0")
    case True
    let ?u = "ucast ((v AND 0xfff) OR push_bit 8 (ucast (fatbuf fat (?p + 1)) AND 0xf0) :: cl_t) :: 16 word"
    have f: "fatbuf ?fat' = le16enc (fatbuf fat) ?p ?u"
      using True by (simp add: fat_set_fat12_next_def Let_def CLUST12_MASK_def)
    have d: "le16dec (fatbuf ?fat') ?p = ?u"
      by (simp add: f le16dec_le16enc)
    have g: "fat_get_fat12_next ?fat' cl
               = (if v \<ge> (CLUST_BAD AND CLUST12_MASK) then v OR NOT CLUST12_MASK else v)"
      using True fat12_even_entry_bits[of v "fatbuf fat (?p + 1)"] le_fff_and[OF assms]
      by (simp add: fat_get_fat12_next_def Let_def d CLUST12_MASK_def)
    have n: "?u AND 0xf000 = le16dec (fatbuf fat) ?p AND 0xf000"
      unfolding le16dec_def by (rule fat12_even_neighbour_bits)
    show ?thesis
      using True unat_sign_extend12[OF v] n
      by (simp add: g Let_def f le16enc_other le16dec_le16enc)
  next
    case False
    then have odd: "cl AND 1 = 1" by (rule and_1_cases)
    let ?u = "ucast (push_bit 4 (v AND 0xfff) OR (ucast (fatbuf fat ?p) AND 0x0f) :: cl_t) :: 16 word"
    have f: "fatbuf ?fat' = le16enc (fatbuf fat) ?p ?u"
      using False by (simp add: fat_set_fat12_next_def Let_def CLUST12_MASK_def)
    have d: "le16dec (fatbuf ?fat') ?p = ?u"
      by (simp add: f le16dec_le16enc)
    have g: "fat_get_fat12_next ?fat' cl
               = (if v \<ge> (CLUST_BAD AND CLUST12_MASK) then v OR NOT CLUST12_MASK else v)"
      using odd fat12_odd_entry_bits[of v "fatbuf fat ?p"] le_fff_and[OF assms]
      by (simp add: fat_get_fat12_next_def Let_def d CLUST12_MASK_def)
    have n: "?u AND 0x000f = le16dec (fatbuf fat) ?p AND 0x000f"
      unfolding le16dec_def by (rule fat12_odd_neighbour_bits)
    show ?thesis
      using False unat_sign_extend12[OF v] n
      by (simp add: g Let_def f le16enc_other le16dec_le16enc)
  qed
qed

theorem fat12_round_trip_witness:
  "(0xfff :: cl_t) \<le> 0xfff
   \<and> unat (fat_get_fat12_next (snd (fat_set_fat12_next fat12_loaded 2 0xfff)) 2)
       = sign_extend CLUST12_MASK (unat (0xfff :: cl_t))
   \<and> sign_extend CLUST12_MASK (unat (0xfff :: cl_t)) = 0xffffffff
   \<and> fatbuf (snd (fat_set_fat12_next fat12_loaded 2 0xfff)) 5 = fatbuf fat12_loaded 5
   \<and> (5 :: cl_t) \<le> 0xfff
   \<and> unat (fat_get_fat12_next (snd (fat_set_fat12_next fat12_loaded 3 5)) 3)
       = sign_extend CLUST12_MASK (unat (5 :: cl_t))
   \<and> sign_extend CLUST12_MASK (unat (5 :: cl_t)) = 5
   \<and> fatbuf (snd (fat_set_fat12_next fat12_loaded 3 5)) 3 = fatbuf fat12_loaded 3"
proof -
  have p: "fat_get_fat12_ptr 2 = 3" "fat_get_fat12_ptr 3 = 4"
    by (simp_all add: fat_get_fat12_ptr_def)
  have h: "(0xfff :: cl_t) \<le> 0xfff" "(5 :: cl_t) \<le> 0xfff" by simp_all
  have s: "sign_extend CLUST12_MASK (unat (0xfff :: cl_t)) = 0xffffffff"
    "sign_extend CLUST12_MASK (unat (5 :: cl_t)) = 5"
    by (simp_all add: sign_extend_def CLUST_BAD_def CLUST12_MASK_def)
  from fat12_round_trip[OF h(1), of fat12_loaded 2] fat12_round_trip[OF h(2), of fat12_loaded 3]
  show ?thesis using s by (simp add: p)
qed

subsection \<open>The dirty check\<close>

lemma byte_3f_c0: "((b :: u_char) AND 0x3f = 0x3f \<and> b AND 0xc0 = 0xc0) = (b = 0xff)"
proof
  assume a: "b AND 0x3f = 0x3f \<and> b AND 0xc0 = 0xc0"
  have "(0x3f OR 0xc0 :: u_char) = - 1" by simp
  then have "b = b AND (0x3f OR 0xc0)" by (simp only: and.right_neutral)
  also have "\<dots> = (b AND 0x3f) OR (b AND 0xc0)" by (simp only: bit.conj_disj_distrib)
  also have "\<dots> = 0xff" using a by simp
  finally show "b = 0xff" .
next
  assume "b = 0xff" then show "b AND 0x3f = 0x3f \<and> b AND 0xc0 = 0xc0" by simp
qed

lemma byte_03_0c: "((b :: u_char) AND 0x03 = 0x03 \<and> b AND 0x0c = 0x0c) = (b AND 0x0f = 0x0f)"
proof
  assume a: "b AND 0x03 = 0x03 \<and> b AND 0x0c = 0x0c"
  have "b AND 0x0f = b AND (0x03 OR 0x0c)" by simp
  also have "\<dots> = (b AND 0x03) OR (b AND 0x0c)" by (simp only: bit.conj_disj_distrib)
  also have "\<dots> = 0x0f" using a by simp
  finally show "b AND 0x0f = 0x0f" .
next
  assume a: "b AND 0x0f = 0x0f"
  have "b AND 0x03 = (b AND 0x0f) AND 0x03" by (simp add: and.assoc)
  moreover have "b AND 0x0c = (b AND 0x0f) AND 0x0c" by (simp add: and.assoc)
  ultimately show "b AND 0x03 = 0x03 \<and> b AND 0x0c = 0x0c" using a by simp
qed

lemma masks_distinct:
  "CLUST16_MASK \<noteq> CLUST12_MASK" "CLUST32_MASK \<noteq> CLUST12_MASK" "CLUST32_MASK \<noteq> CLUST16_MASK"
  "CLUST12_MASK \<noteq> CLUST16_MASK" "CLUST12_MASK \<noteq> CLUST32_MASK" "CLUST16_MASK \<noteq> CLUST32_MASK"
  by (simp_all add: CLUST12_MASK_def CLUST16_MASK_def CLUST32_MASK_def)

text \<open>
  C8 (as amended). Given the first FAT sector of a FAT16 or FAT32 volume, \<^verbatim>\<open>checkdirty\<close>
  applies a validation of its own, by masks: byte 0 is the media byte and byte 1 is
  \<^verbatim>\<open>0xFF\<close>; for FAT16 \<^verbatim>\<open>(byte2 & 0xF8) == 0xF8\<close> and \<^verbatim>\<open>(byte3 & 0x3F) == 0x3F\<close>; for FAT32 byte 2
  is \<^verbatim>\<open>0xFF\<close>, \<^verbatim>\<open>(byte3 & 0x0F) == 0x0F\<close>, \<^verbatim>\<open>(byte4 & 0xF8) == 0xF8\<close>, bytes 5 and 6 are \<^verbatim>\<open>0xFF\<close>
  and \<^verbatim>\<open>(byte7 & 0x03) == 0x03\<close>. A buffer that fails it yields 0; one that passes yields
  1 exactly when the flag bits are set: \<^verbatim>\<open>(byte3 & 0xC0) == 0xC0\<close> for FAT16,
  \<^verbatim>\<open>(byte7 & 0x0C) == 0x0C\<close> for FAT32. So the result is 1 exactly when byte 3 is \<^verbatim>\<open>0xFF\<close>
  (FAT16), or the low nibble of byte 7 is \<^verbatim>\<open>0xF\<close> (FAT32), next to the other tests. Every
  buffer with the loader's clean signature yields 1, and every buffer with the loader's
  dirty signature passes the validation and yields 0.
\<close>

theorem checkdirty_sector:
  assumes "ClustMask bt = CLUST16_MASK \<or> ClustMask bt = CLUST32_MASK"
  shows "snd (checkdirty w (SectorRead b) bt) = w
    \<and> (checkdirty_not_understood bt b \<longrightarrow> fst (checkdirty w (SectorRead b) bt) = 0)
    \<and> (\<not> checkdirty_not_understood bt b \<and> ClustMask bt = CLUST16_MASK \<longrightarrow>
          fst (checkdirty w (SectorRead b) bt) = (if b 3 AND 0xc0 = 0xc0 then 1 else 0))
    \<and> (\<not> checkdirty_not_understood bt b \<and> ClustMask bt = CLUST32_MASK \<longrightarrow>
          fst (checkdirty w (SectorRead b) bt) = (if b 7 AND 0x0c = 0x0c then 1 else 0))
    \<and> (ClustMask bt = CLUST16_MASK \<longrightarrow>
          (fst (checkdirty w (SectorRead b) bt) = 1)
            = (ucast (b 0) = bpbMedia bt \<and> b 1 = 0xff \<and> b 2 AND 0xf8 = 0xf8 \<and> b 3 = 0xff))
    \<and> (ClustMask bt = CLUST32_MASK \<longrightarrow>
          (fst (checkdirty w (SectorRead b) bt) = 1)
            = (ucast (b 0) = bpbMedia bt \<and> b 1 = 0xff \<and> b 2 = 0xff \<and> b 3 AND 0x0f = 0x0f
               \<and> b 4 AND 0xf8 = 0xf8 \<and> b 5 = 0xff \<and> b 6 = 0xff \<and> b 7 AND 0x0f = 0x0f))
    \<and> (\<not> readfat_not_clean bt b \<longrightarrow> fst (checkdirty w (SectorRead b) bt) = 1)
    \<and> (readfat_dirty bt b \<longrightarrow>
          \<not> checkdirty_not_understood bt b \<and> fst (checkdirty w (SectorRead b) bt) = 0)"
proof -
  have 1: "snd (checkdirty w (SectorRead b) bt) = w"
    by (simp add: checkdirty_def)
  have 2: "checkdirty_not_understood bt b \<longrightarrow> fst (checkdirty w (SectorRead b) bt) = 0"
    by (simp add: checkdirty_def)
  have 3: "\<not> checkdirty_not_understood bt b \<and> ClustMask bt = CLUST16_MASK \<longrightarrow>
          fst (checkdirty w (SectorRead b) bt) = (if b 3 AND 0xc0 = 0xc0 then 1 else 0)"
    by (simp add: checkdirty_def)
  have 4: "\<not> checkdirty_not_understood bt b \<and> ClustMask bt = CLUST32_MASK \<longrightarrow>
          fst (checkdirty w (SectorRead b) bt) = (if b 7 AND 0x0c = 0x0c then 1 else 0)"
    by (simp add: checkdirty_def masks_distinct)
  have 5: "ClustMask bt = CLUST16_MASK \<longrightarrow>
          (fst (checkdirty w (SectorRead b) bt) = 1)
            = (ucast (b 0) = bpbMedia bt \<and> b 1 = 0xff \<and> b 2 AND 0xf8 = 0xf8 \<and> b 3 = 0xff)"
    using byte_3f_c0[of "b 3"]
    by (auto simp: checkdirty_def checkdirty_not_understood_def)
  have 6: "ClustMask bt = CLUST32_MASK \<longrightarrow>
          (fst (checkdirty w (SectorRead b) bt) = 1)
            = (ucast (b 0) = bpbMedia bt \<and> b 1 = 0xff \<and> b 2 = 0xff \<and> b 3 AND 0x0f = 0x0f
               \<and> b 4 AND 0xf8 = 0xf8 \<and> b 5 = 0xff \<and> b 6 = 0xff \<and> b 7 AND 0x0f = 0x0f)"
    using byte_03_0c[of "b 7"]
    by (auto simp: checkdirty_def checkdirty_not_understood_def masks_distinct)
  have 7: "\<not> readfat_not_clean bt b \<longrightarrow> fst (checkdirty w (SectorRead b) bt) = 1"
    using assms 5 6 by (auto simp: readfat_not_clean_def)
  have 8: "readfat_dirty bt b \<longrightarrow>
          \<not> checkdirty_not_understood bt b \<and> fst (checkdirty w (SectorRead b) bt) = 0"
    by (auto simp: readfat_dirty_def checkdirty_def checkdirty_not_understood_def masks_distinct)
  from 1 2 3 4 5 6 7 8 show ?thesis by blast
qed

theorem checkdirty_sector_witness:
  "(ClustMask boot16 = CLUST16_MASK \<or> ClustMask boot16 = CLUST32_MASK)
   \<and> \<not> readfat_not_clean boot16 (bytes_buf [0xf8, 0xff, 0xff, 0xff])
   \<and> fst (checkdirty world_rw (SectorRead (bytes_buf [0xf8, 0xff, 0xff, 0xff])) boot16) = 1
   \<and> readfat_dirty boot16 (bytes_buf [0xf8, 0xff, 0xff, 0x7f])
   \<and> fst (checkdirty world_rw (SectorRead (bytes_buf [0xf8, 0xff, 0xff, 0x7f])) boot16) = 0
   \<and> (ClustMask boot32 = CLUST16_MASK \<or> ClustMask boot32 = CLUST32_MASK)
   \<and> \<not> readfat_not_clean boot32 (bytes_buf image32)
   \<and> fst (checkdirty world_rw (SectorRead (bytes_buf image32)) boot32) = 1"
proof -
  have h: "ClustMask boot16 = CLUST16_MASK \<or> ClustMask boot16 = CLUST32_MASK"
    "ClustMask boot32 = CLUST16_MASK \<or> ClustMask boot32 = CLUST32_MASK"
    by (simp_all add: boot16_def boot32_def)
  have c: "\<not> readfat_not_clean boot16 (bytes_buf [0xf8, 0xff, 0xff, 0xff])"
    "readfat_dirty boot16 (bytes_buf [0xf8, 0xff, 0xff, 0x7f])"
    "\<not> readfat_not_clean boot32 (bytes_buf image32)"
    by (simp_all add: readfat_not_clean_def readfat_dirty_def boot16_def boot32_def
        bytes_buf_def image32_def masks_distinct)
  from checkdirty_sector[OF h(1), of world_rw "bytes_buf [0xf8, 0xff, 0xff, 0xff]"]
    checkdirty_sector[OF h(1), of world_rw "bytes_buf [0xf8, 0xff, 0xff, 0x7f]"]
    checkdirty_sector[OF h(2), of world_rw "bytes_buf image32"]
  show ?thesis using h c by simp
qed

text \<open>
  C8 as stated fails: the validation of \<^verbatim>\<open>checkdirty\<close> is not the loader's. On a FAT16
  volume with media byte \<^verbatim>\<open>0xF8\<close>, the sector that starts \<^verbatim>\<open>F8 FF F8 FF\<close> has neither the clean
  nor the dirty signature of the loader (its byte 2 is not \<^verbatim>\<open>0xFF\<close>), and \<^verbatim>\<open>checkdirty\<close> returns
  1 for it.
\<close>

theorem checkdirty_loader_counterexample:
  "fst (checkdirty world_rw (SectorRead (bytes_buf [0xf8, 0xff, 0xf8, 0xff])) boot16) = 1
   \<and> readfat_not_clean boot16 (bytes_buf [0xf8, 0xff, 0xf8, 0xff])
   \<and> \<not> readfat_dirty boot16 (bytes_buf [0xf8, 0xff, 0xf8, 0xff])"
  by (simp add: checkdirty_def checkdirty_not_understood_def readfat_not_clean_def
      readfat_dirty_def boot16_def bytes_buf_def)

subsection \<open>The writer\<close>

lemma writefat_loop_trace:
  "writefat_loop dev fat i (ret, calls, w) =
     (if \<exists>k \<in> set [unat i ..< unat (bpbFATs (boot fat))]. copy_failed dev fat k then FSFATAL else ret,
      calls @ concat (map (copy_calls dev fat) [unat i ..< unat (bpbFATs (boot fat))]),
      w\<lparr>diags := diags w @ map (\<lambda>_. Perr UnableToWriteFAT)
          (filter (copy_failed dev fat) [unat i ..< unat (bpbFATs (boot fat))])\<rparr>)"
proof (induction dev fat i "(ret, calls, w)" arbitrary: ret calls w rule: writefat_loop.induct)
  case (1 dev fat i ret calls w)
  let ?n = "unat (bpbFATs (boot fat))"
  show ?case
  proof (cases "i < bpbFATs (boot fat)")
    case False
    then have "?n \<le> unat i" by (simp add: word_less_nat_alt)
    with False show ?thesis by (subst writefat_loop.simps) simp
  next
    case True
    then have u: "[unat i ..< ?n] = unat i # [unat (i + 1) ..< ?n]"
      by (simp add: unat_plus_1_less[OF True] word_less_nat_alt upt_conv_Cons)
    let ?off = "writefat_off (boot fat) i"
    consider (a) "sys_lseek dev i ?off \<noteq> ?off"
      | (b) "sys_lseek dev i ?off = ?off" "sys_write dev i (fatsize fat) \<noteq> fatsize fat"
      | (c) "sys_lseek dev i ?off = ?off" "sys_write dev i (fatsize fat) = fatsize fat"
      by blast
    then show ?thesis
    proof cases
      case a
      with True "1.hyps"(1)[OF True refl refl a] show ?thesis
        by (subst writefat_loop.simps) (simp add: u copy_calls_def copy_failed_def perr_def Let_def)
    next
      case b
      with True "1.hyps"(2)[OF True refl refl _ b(2)] show ?thesis
        by (subst writefat_loop.simps) (simp add: u copy_calls_def copy_failed_def perr_def Let_def)
    next
      case c
      with True "1.hyps"(3)[OF True refl refl _ _] show ?thesis
        by (subst writefat_loop.simps) (simp add: u copy_calls_def copy_failed_def perr_def Let_def)
    qed
  qed
qed


lemma writefat_off_nat:
  assumes "unat (bpbResSectors bt) + i * unat (FATsecs bt) < 2 ^ 32"
  shows "unat (writefat_off bt (of_nat i))
           = unat (bpbResSectors bt) * unat (bpbBytesPerSec bt)
             + i * unat (FATsecs bt) * unat (bpbBytesPerSec bt)"
proof -
  let ?s = "bpbResSectors bt + of_nat i * FATsecs bt"
  have "unat (of_nat i * FATsecs bt :: 32 word) = (i * unat (FATsecs bt)) mod 2 ^ 32"
    by (simp add: unat_word_ariths unat_of_nat mod_mult_left_eq)
  also have "\<dots> = i * unat (FATsecs bt)" using assms by simp
  finally have s: "unat ?s = unat (bpbResSectors bt) + i * unat (FATsecs bt)"
    using assms by (simp add: unat_word_ariths)
  have u: "unat (ucast ?s :: 64 word) = unat ?s" "unat (ucast (bpbBytesPerSec bt) :: 64 word) = unat (bpbBytesPerSec bt)"
    using unsigned_less[of ?s, where 'a=nat] unsigned_less[of "bpbBytesPerSec bt", where 'a=nat]
    by (simp_all add: unsigned_ucast_eq take_bit_nat_eq_self_iff)
  have "unat ?s * unat (bpbBytesPerSec bt) < 2 ^ 32 * 2 ^ 32"
    using unsigned_less[of ?s, where 'a=nat] unsigned_less[of "bpbBytesPerSec bt", where 'a=nat]
    by (intro mult_strict_mono) simp_all
  then have "unat (writefat_off bt (of_nat i)) = unat ?s * unat (bpbBytesPerSec bt)"
    by (simp add: writefat_off_def unat_word_ariths u)
  then show ?thesis by (simp add: s add_mult_distrib)
qed

text \<open>
  C9. \<^verbatim>\<open>writefat\<close> goes through the copies \<open>i\<close> below \<^verbatim>\<open>bpbFATs\<close>, leaving out \<open>i = 0\<close> exactly
  when the primary FAT is mapped; for each one, whatever happened to the copies before,
  it seeks to the offset of the copy and, when the seek ended there, writes \<^verbatim>\<open>fatsize\<close> bytes;
  it returns FSFATAL when the seek or the write of some copy failed, FSOK otherwise, and
  reports each failure with \<^verbatim>\<open>perr\<close>. The offset of copy \<open>i\<close> is
  \<^verbatim>\<open>bpbResSectors * bpbBytesPerSec + i * FATsecs * bpbBytesPerSec\<close> whenever the sector number
  \<^verbatim>\<open>bpbResSectors + i * FATsecs\<close> fits the 32 bits it is computed in.
\<close>

theorem writefat_copies:
  "writefat dev w fat =
     (if \<exists>k \<in> set (copies fat). copy_failed dev fat k then FSFATAL else FSOK,
      concat (map (copy_calls dev fat) (copies fat)),
      w\<lparr>diags := diags w @ map (\<lambda>_. Perr UnableToWriteFAT)
                               (filter (copy_failed dev fat) (copies fat))\<rparr>)
   \<and> (\<forall>i. unat (bpbResSectors (boot fat)) + i * unat (FATsecs (boot fat)) < 2 ^ 32 \<longrightarrow>
          unat (writefat_off (boot fat) (of_nat i))
            = unat (bpbResSectors (boot fat)) * unat (bpbBytesPerSec (boot fat))
              + i * unat (FATsecs (boot fat)) * unat (bpbBytesPerSec (boot fat)))"
proof -
  have "unat (if is_mmapped fat then 1 else 0 :: u_int) = (if is_mmapped fat then 1 else 0)"
    by simp
  then show ?thesis
    using writefat_off_nat[of "boot fat"]
    unfolding writefat_def writefat_loop_trace copies_def
    by simp
qed

theorem writefat_copies_witness:
  "unat (bpbResSectors (boot fat16_loaded)) + 1 * unat (FATsecs (boot fat16_loaded)) < 2 ^ 32
   \<and> unat (writefat_off (boot fat16_loaded) 1) = 1024
   \<and> writefat device_fails_first world_rw fat16_loaded
       = (FSFATAL, [Lseek 512, Lseek 1024, Write 1024 512],
          world_rw\<lparr>diags := [Perr UnableToWriteFAT]\<rparr>)"
proof -
  have h: "unat (bpbResSectors (boot fat16_loaded)) + 1 * unat (FATsecs (boot fat16_loaded)) < 2 ^ 32"
    by (simp add: fat16_loaded_def boot16_def)
  have c: "copies fat16_loaded = [0, 1]"
    by (simp add: copies_def fat16_loaded_def boot16_def upt_rec)
  have o: "writefat_off boot16 0 = 512" "writefat_off boot16 1 = 1024"
    by (simp_all add: writefat_off_def boot16_def)
  have f: "boot fat16_loaded = boot16" "fatsize fat16_loaded = 512"
    by (simp_all add: fat16_loaded_def)
  from writefat_copies[of device_fails_first world_rw fat16_loaded] h
  show ?thesis
    by (simp add: c copy_failed_def copy_calls_def device_fails_first_def o f world_rw_def)
qed

subsection \<open>The scanner\<close>

lemma fst_fat_get_cl_next: "fst (fat_get_cl_next w fat cl) = next_of fat cl"
  by (simp add: fat_get_cl_next_def next_of_def)

lemma next_of_cong:
  "fatbuf fat1 = fatbuf fat \<Longrightarrow> ClustMask (boot fat1) = ClustMask (boot fat) \<Longrightarrow>
   NumClusters (boot fat1) = NumClusters (boot fat) \<Longrightarrow> next_of fat1 cl = next_of fat cl"
  by (simp add: next_of_def fat_get_cl_next_def fat_get_fat12_next_def fat_get_fat16_next_def
      fat_get_fat32_next_def)

lemma fat_clear_cl_head_fields:
  "fat_clear_cl_head fat cl = Return fat' \<Longrightarrow>
     boot fat' = boot fat \<and> fatbuf fat' = fatbuf fat \<and> usedbitmap fat' = usedbitmap fat"
  by (cases "bitmap_clear (headbitmap fat) cl") (auto simp: fat_clear_cl_head_def)








lemma push_bit_1_neq_0: "k < 64 \<Longrightarrow> (push_bit k 1 :: 64 word) \<noteq> 0"
proof
  assume k: "k < 64" and "(push_bit k 1 :: 64 word) = 0"
  then have "bit (push_bit k 1 :: 64 word) k = bit (0 :: 64 word) k" by simp
  with k show False by (simp add: bit_simps)
qed

lemma bitmap_clear_returns:
  assumes "bitmap_get lbp cl"
  shows "\<exists>b. bitmap_clear lbp cl = Return b"
proof -
  let ?x = "push_bit (unat (cl mod LONG_BIT)) 1 :: 64 word"
  from assms have "map_words lbp (unat (cl div LONG_BIT)) AND ?x = ?x"
    by (simp add: bitmap_get_def Let_def)
  then have "map_words lbp (unat (cl div LONG_BIT)) AND NOT (NOT ?x) \<noteq> 0"
    using push_bit_1_neq_0[OF unat_mod_LONG_BIT[of cl]] by simp
  then show ?thesis unfolding bitmap_clear_def Let_def by simp
qed

lemma fat_clear_cl_head_returns:
  "fat_is_cl_head fat cl \<Longrightarrow> \<exists>f. fat_clear_cl_head fat cl = Return f"
  using bitmap_clear_returns[of "headbitmap fat" cl]
  by (auto simp: fat_is_cl_head_def fat_clear_cl_head_def)

lemma readfat_body_returns: "\<exists>r. readfat_body w fat ret cl = Return r"
proof -
  have h: "\<And>c. \<exists>f. (if fat_is_cl_head fat c then fat_clear_cl_head fat c else Return fat) = Return f"
    using fat_clear_cl_head_returns by auto
  obtain f1 where f1: "(if fat_is_cl_head fat cl then fat_clear_cl_head fat cl else Return fat) = Return f1"
    using h by blast
  show ?thesis
    unfolding readfat_body_def
    using f1 fat_clear_cl_head_returns[of fat "fst (fat_get_cl_next w fat cl)"]
    by (auto simp: Let_def split: prod.splits outcome.splits)
qed

lemma readfat_loop_returns: "\<exists>r. readfat_loop w fat ret cl = Return r"
proof (induction w fat ret cl rule: readfat_loop.induct)
  case (1 w fat ret cl)
  show ?case
  proof (cases "cl < NumClusters (boot fat)")
    case False
    then show ?thesis by (subst readfat_loop.simps) simp
  next
    case True
    obtain r1 fat1 w1 where b: "readfat_body w fat ret cl = Return (r1, fat1, w1)"
      using readfat_body_returns[of w fat ret cl] by (metis prod_cases3)
    from "1.IH"[OF True b refl refl] True b show ?thesis
      by (subst readfat_loop.simps) simp
  qed
qed




lemma readfat_returns: "\<exists>ret bt' fp w'. readfat w bt acquired = Return (ret, bt', fp, w')"
proof (cases acquired)
  case (Acquired buffer mapped)
  obtain r0 fat1 w1 where
    s: "readfat_signature w (readfat_descriptor (bt\<lparr>NumFree := 0, NumBad := 0\<rparr>) buffer mapped) FSOK
          = (r0, fat1, w1)"
    by (metis prod_cases3)
  obtain r where "readfat_loop w1 fat1 r0 CLUST_FIRST = Return r"
    using readfat_loop_returns by blast
  then show ?thesis using Acquired s
    by (cases r) (auto simp: readfat_def Let_def)
qed (simp_all add: readfat_def)


lemma fat_get_cl_next_world:
  "answers (snd (fat_get_cl_next w fat cl)) = answers w"
  "rdonly (snd (fat_get_cl_next w fat cl)) = rdonly w"
  by (simp_all add: fat_get_cl_next_def pfatal_def)





lemmas sample_eval = fat_get_cl_next_def fat_get_fat16_next_def fat_get_fat16_ptr_def le16dec_def
  bytes_buf_def image16_def CLUST_BAD_def CLUST16_MASK_def CLUST12_MASK_def CLUST32_MASK_def
  CLUST_EOF_def CLUST_FREE_def CLUST_FIRST_def CLUST_EOFS_def CLUST_RSRVD_def
  fat_is_cl_head_def fat_clear_cl_head_def bitmap_get_def bitmap_clear_def
  bitmap_set_def fat_is_cl_used_def fat_set_cl_used_def fat_clear_cl_used_def fat_is_cl_valid_def
  LONG_BIT_def Let_def boot16_def bitmap_ctor_def FSOK_def FSFATAL_def FSFATMOD_def FSERROR_def

lemma readfat_sample:
  "readfat world_rw boot16 (Acquired (bytes_buf image16) False)
     = Return (FSOK, boot16\<lparr>NumFree := 12\<rparr>, Some fat16_scanned, world_rw)"
proof -
  have w: "(0xffffffffffff0007 :: 64 word) = - 65529" by simp
  show ?thesis
    unfolding readfat_def fat16_scanned_def w
    by (simp add: readfat_loop.simps readfat_body_def readfat_signature_def readfat_not_clean_def
        readfat_descriptor_def sample_eval)
qed




subsection \<open>The chain checker and the chain clearer\<close>

lemma chain_unique: "chain fat c cs \<Longrightarrow> chain fat c cs' \<Longrightarrow> cs = cs'"
proof (induction arbitrary: cs' rule: chain.induct)
  case (chain_end c)
  from chain_end.prems show ?case
  proof (cases rule: chain.cases)
    case chain_end
    then show ?thesis by simp
  next
    case (chain_link ds)
    with chain_end.hyps show ?thesis by simp
  qed
next
  case (chain_link c cs)
  from chain_link.prems show ?case
  proof (cases rule: chain.cases)
    case chain_end
    with chain_link.hyps show ?thesis by simp
  next
    case (chain_link ds)
    then show ?thesis using chain_link.IH[of ds] by simp
  qed
qed

lemma chain_cong:
  assumes "fatbuf fat1 = fatbuf fat" "boot fat1 = boot fat"
  shows "chain fat c cs \<Longrightarrow> chain fat1 c cs"
proof (induction rule: chain.induct)
  case (chain_end c)
  have n: "next_of fat1 c = next_of fat c"
    by (rule next_of_cong) (simp_all add: assms)
  show ?case
    using chain_end
    by (intro chain.chain_end) (simp_all add: fat_is_cl_valid_def assms(2) n)
next
  case (chain_link c cs)
  have n: "next_of fat1 c = next_of fat c"
    by (rule next_of_cong) (simp_all add: assms)
  show ?case
    using chain_link
    by (intro chain.chain_link) (simp_all add: fat_is_cl_valid_def assms(2) n)
qed


lemma fat_set_cl_used_fields:
  "fat_set_cl_used fat cl = Return fat' \<Longrightarrow>
     boot fat' = boot fat \<and> fatbuf fat' = fatbuf fat \<and> headbitmap fat' = headbitmap fat"
  by (cases "bitmap_set (usedbitmap fat) cl") (auto simp: fat_set_cl_used_def)

lemma truncate_at_ret:
  assumes "truncate_at w fat c n = (r, n', fat', w')"
  shows "(r = FSERROR \<and> fat' = fat \<and> n' = n)
     \<or> (r = FSFATMOD \<and> n' = n + 1 \<and> (\<exists>w0. fat' = fst (snd (fat_set_cl_next w0 fat c CLUST_EOF))))"
proof -
  obtain a w1 where a: "ask False ''Truncate'' w = (a, w1)" by (cases "ask False ''Truncate'' w")
  show ?thesis
  proof (cases a)
    case False
    with assms a show ?thesis by (simp add: truncate_at_def)
  next
    case True
    obtain r0 f1 w2 where s: "fat_set_cl_next w1 fat c CLUST_EOF = (r0, f1, w2)"
      by (metis prod_cases3)
    then have "f1 = fst (snd (fat_set_cl_next w1 fat c CLUST_EOF))" by simp
    moreover from assms a True s have "r = FSFATMOD" "n' = n + 1" "fat' = f1"
      by (simp_all add: truncate_at_def)
    ultimately show ?thesis by blast
  qed
qed

lemma status_distinct:
  "FSOK \<noteq> FSERROR" "FSOK \<noteq> FSFATMOD" "FSERROR \<noteq> FSFATMOD"
  "FSERROR \<noteq> FSOK" "FSFATMOD \<noteq> FSOK" "FSFATMOD \<noteq> FSERROR"
  by (simp_all add: FSOK_def FSERROR_def FSFATMOD_def)

lemma fat_set_cl_next_fatbuf_cong:
  "fatbuf fat1 = fatbuf fat \<Longrightarrow> boot fat1 = boot fat \<Longrightarrow>
     fatbuf (fst (snd (fat_set_cl_next w fat1 c v))) = fatbuf (fst (snd (fat_set_cl_next w fat c v)))"
  by (simp add: fat_set_cl_next_def fat_set_fat12_next_def fat_set_fat16_next_def
      fat_set_fat32_next_def Let_def)

lemma checkchain_loop_cases:
  assumes "checkchain_loop w fat head cur nxt n = Return res"
  obtains
    (natural_end) "\<not> fat_is_cl_valid fat nxt" "nxt \<ge> CLUST_EOFS" "res = (FSOK, n + 1, fat, w)"
  | (truncate) w0 where "res = truncate_at w0 fat cur n"
  | (step) fat1 x w1 where "fat_is_cl_valid fat nxt" "\<not> fat_is_cl_used fat nxt"
      "fat_set_cl_used fat nxt = Return fat1" "fat_get_cl_next w fat1 nxt = (x, w1)"
      "checkchain_loop w1 fat1 head nxt x (n + 1) = Return res"
proof (cases "fat_is_cl_valid fat nxt")
  case False
  with assms natural_end truncate show ?thesis
    by (subst (asm) checkchain_loop.simps) (auto split: if_splits)
next
  case v: True
  show ?thesis
  proof (cases "fat_is_cl_used fat nxt")
    case True
    with v assms truncate show ?thesis
      by (subst (asm) checkchain_loop.simps) auto
  next
    case u: False
    from assms v u obtain fat1 where s: "fat_set_cl_used fat nxt = Return fat1"
      by (subst (asm) checkchain_loop.simps) (simp split: outcome.splits)
    obtain x w1 where g: "fat_get_cl_next w fat1 nxt = (x, w1)"
      by (cases "fat_get_cl_next w fat1 nxt")
    from assms v u s g have "checkchain_loop w1 fat1 head nxt x (n + 1) = Return res"
      by (subst (asm) checkchain_loop.simps) simp
    with v u s g step show ?thesis by blast
  qed
qed

lemma checkchain_loop_buffer:
  "checkchain_loop w fat head cur nxt n = Return (r, n', fat', w') \<Longrightarrow>
   fat_is_cl_valid fat cur \<Longrightarrow>
     boot fat' = boot fat
     \<and> (r = FSOK \<or> r = FSERROR \<or> r = FSFATMOD)
     \<and> (r = FSOK \<or> r = FSERROR \<longrightarrow> fatbuf fat' = fatbuf fat)
     \<and> (r = FSFATMOD \<longrightarrow>
          (\<exists>c w0. fat_is_cl_valid fat c
             \<and> fatbuf fat' = fatbuf (fst (snd (fat_set_cl_next w0 fat c CLUST_EOF)))))"
proof (induction w fat head cur nxt n rule: checkchain_loop.induct)
  case (1 w fat head cur nxt n)
  from "1.prems"(1) show ?case
  proof (cases rule: checkchain_loop_cases)
    case natural_end
    then show ?thesis by (simp add: status_distinct)
  next
    case (truncate w0)
    then have t: "truncate_at w0 fat cur n = (r, n', fat', w')" by simp
    from truncate_at_ret[OF t] show ?thesis
    proof
      assume "r = FSERROR \<and> fat' = fat \<and> n' = n"
      then show ?thesis by (simp add: status_distinct)
    next
      assume a: "r = FSFATMOD \<and> n' = n + 1 \<and> (\<exists>w0. fat' = fst (snd (fat_set_cl_next w0 fat cur CLUST_EOF)))"
      then obtain w1 where f: "fat' = fst (snd (fat_set_cl_next w1 fat cur CLUST_EOF))" by blast
      have "boot fat' = boot fat"
        unfolding f by (rule fat_set_cl_next_boot[of w1 fat cur CLUST_EOF]) (simp add: prod_eq_iff)
      moreover have "\<exists>c w0. fat_is_cl_valid fat c
             \<and> fatbuf fat' = fatbuf (fst (snd (fat_set_cl_next w0 fat c CLUST_EOF)))"
        using f "1.prems"(2) by blast
      ultimately show ?thesis using a by (simp add: status_distinct)
    qed
  next
    case (step fat1 x w1)
    note f = fat_set_cl_used_fields[OF step(3)]
    have v1: "fat_is_cl_valid fat1 nxt" "\<And>c. fat_is_cl_valid fat1 c = fat_is_cl_valid fat c"
      using step(1) f by (simp_all add: fat_is_cl_valid_def)
    have c: "\<And>w0 c. fatbuf (fst (snd (fat_set_cl_next w0 fat1 c CLUST_EOF)))
                = fatbuf (fst (snd (fat_set_cl_next w0 fat c CLUST_EOF)))"
      by (rule fat_set_cl_next_fatbuf_cong) (simp_all add: f)
    from "1.IH"[OF step(1,2,3) step(4)[symmetric] refl step(5) v1(1)]
    show ?thesis by (simp add: f v1(2) c)
  qed
qed


lemma checkchain_cases:
  assumes "checkchain w fat head = Return res"
  obtains fat1 fat2 x w1 where
    "fat_is_cl_valid fat head" "fat_is_cl_head fat head" "\<not> fat_is_cl_used fat head"
    "fat_clear_cl_head fat head = Return fat1" "fat_set_cl_used fat1 head = Return fat2"
    "fat_get_cl_next w fat2 head = (x, w1)"
    "checkchain_loop w1 fat2 head head x 0 = Return res"
proof -
  from assms have a: "fat_is_cl_valid fat head" "fat_is_cl_head fat head" "\<not> fat_is_cl_used fat head"
    by (auto simp: checkchain_def split: if_splits)
  with assms obtain fat1 where f1: "fat_clear_cl_head fat head = Return fat1"
    by (auto simp: checkchain_def split: outcome.splits)
  with assms a obtain fat2 where f2: "fat_set_cl_used fat1 head = Return fat2"
    by (auto simp: checkchain_def split: outcome.splits)
  obtain x w1 where g: "fat_get_cl_next w fat2 head = (x, w1)"
    by (cases "fat_get_cl_next w fat2 head")
  from assms a f1 f2 g have "checkchain_loop w1 fat2 head head x 0 = Return res"
    by (simp add: checkchain_def)
  with a f1 f2 g that show ?thesis by blast
qed

lemma checkchain_loop_chain:
  "checkchain_loop w fat head cur nxt n = Return (FSOK, n', fat', w') \<Longrightarrow>
   fat_is_cl_valid fat cur \<Longrightarrow> nxt = next_of fat cur \<Longrightarrow>
     \<exists>cs. chain fat cur (cur # cs) \<and> n' = n + 1 + of_nat (length cs) \<and> distinct cs
          \<and> (\<forall>c \<in> set cs. \<not> fat_is_cl_used fat c)
          \<and> (\<forall>c. fat_is_cl_used fat' c = (c \<in> set cs \<or> fat_is_cl_used fat c))"
proof (induction w fat head cur nxt n rule: checkchain_loop.induct)
  case (1 w fat head cur nxt n)
  from "1.prems"(1) show ?case
  proof (cases rule: checkchain_loop_cases)
    case natural_end
    then have "chain fat cur [cur]" "n' = n + 1" "fat' = fat"
      using "1.prems"(2,3) by (auto intro: chain_end)
    then show ?thesis by (intro exI[of _ "[]"]) simp
  next
    case (truncate w0)
    then have t: "truncate_at w0 fat cur n = (FSOK, n', fat', w')" by simp
    from truncate_at_ret[OF t] show ?thesis by (simp add: status_distinct)
  next
    case (step fat1 x w1)
    note f = fat_set_cl_used_fields[OF step(3)]
    have v1: "fat_is_cl_valid fat1 nxt"
      using step(1) f by (simp add: fat_is_cl_valid_def)
    have x: "x = next_of fat1 nxt"
      using step(4) fst_fat_get_cl_next[of w fat1 nxt] by simp
    from "1.IH"[OF step(1,2,3) step(4)[symmetric] refl step(5) v1 x]
    obtain cs where cs: "chain fat1 nxt (nxt # cs)" "n' = n + 1 + 1 + of_nat (length cs)"
      "distinct cs" "\<forall>c \<in> set cs. \<not> fat_is_cl_used fat1 c"
      "\<forall>c. fat_is_cl_used fat' c = (c \<in> set cs \<or> fat_is_cl_used fat1 c)"
      by blast
    have ch: "chain fat nxt (nxt # cs)"
      using chain_cong[OF _ _ cs(1), of fat] f by simp
    have u: "nxt \<notin> set cs" "\<forall>c \<in> set cs. \<not> fat_is_cl_used fat c"
      using cs(4) fat_set_cl_used_get[OF step(3)] by auto
    have m: "\<forall>c. fat_is_cl_used fat' c = (c \<in> set (nxt # cs) \<or> fat_is_cl_used fat c)"
      using cs(5) fat_set_cl_used_get[OF step(3)] by auto
    have "chain fat cur (cur # nxt # cs)"
      using "1.prems"(2,3) step(1) ch by (auto intro: chain_link)
    moreover have "n' = n + 1 + of_nat (length (nxt # cs))" using cs(2) by simp
    moreover have "distinct (nxt # cs)" using cs(3) u(1) by simp
    moreover have "\<forall>c \<in> set (nxt # cs). \<not> fat_is_cl_used fat c" using u(2) step(2) by simp
    ultimately show ?thesis using m by blast
  qed
qed

lemma distinct_cl_length:
  assumes "distinct (cs :: cl_t list)"
  shows "length cs \<le> 2 ^ 32"
proof -
  have "length cs = card (set cs)" using assms by (simp add: distinct_card)
  also have "\<dots> \<le> card (UNIV :: cl_t set)" by (intro card_mono) simp_all
  also have "\<dots> = 2 ^ 32" by (simp add: card_word)
  finally show ?thesis .
qed

lemma fat_set_cl_next_usedbitmap:
  "usedbitmap (fst (snd (fat_set_cl_next w fat c v))) = usedbitmap fat"
  by (simp add: fat_set_cl_next_def fat_set_fat12_next_def fat_set_fat16_next_def
      fat_set_fat32_next_def Let_def)

lemma checkchain_loop_marked:
  "checkchain_loop w fat head cur nxt n = Return (r, n', fat', w') \<Longrightarrow> r \<noteq> FSERROR \<Longrightarrow>
     \<exists>cs. distinct cs \<and> (\<forall>c \<in> set cs. \<not> fat_is_cl_used fat c)
          \<and> n' = n + 1 + of_nat (length cs)
          \<and> (\<forall>c. fat_is_cl_used fat' c = (c \<in> set cs \<or> fat_is_cl_used fat c))"
proof (induction w fat head cur nxt n rule: checkchain_loop.induct)
  case (1 w fat head cur nxt n)
  from "1.prems"(1) show ?case
  proof (cases rule: checkchain_loop_cases)
    case natural_end
    then show ?thesis by (intro exI[of _ "[]"]) simp
  next
    case (truncate w0)
    then have t: "truncate_at w0 fat cur n = (r, n', fat', w')" by simp
    from truncate_at_ret[OF t] "1.prems"(2)
    obtain w1 where "n' = n + 1" "fat' = fst (snd (fat_set_cl_next w1 fat cur CLUST_EOF))"
      by blast
    then show ?thesis
      by (intro exI[of _ "[]"]) (simp add: fat_is_cl_used_def fat_set_cl_next_usedbitmap)
  next
    case (step fat1 x w1)
    from "1.IH"[OF step(1,2,3) step(4)[symmetric] refl step(5) "1.prems"(2)]
    obtain cs where cs: "distinct cs" "\<forall>c \<in> set cs. \<not> fat_is_cl_used fat1 c"
      "n' = n + 1 + 1 + of_nat (length cs)"
      "\<forall>c. fat_is_cl_used fat' c = (c \<in> set cs \<or> fat_is_cl_used fat1 c)"
      by blast
    note g = fat_set_cl_used_get[OF step(3)]
    have "distinct (nxt # cs)" using cs(1,2) g by auto
    moreover have "\<forall>c \<in> set (nxt # cs). \<not> fat_is_cl_used fat c" using cs(2) g step(2) by auto
    moreover have "n' = n + 1 + of_nat (length (nxt # cs))" using cs(3) by simp
    moreover have "\<forall>c. fat_is_cl_used fat' c = (c \<in> set (nxt # cs) \<or> fat_is_cl_used fat c)"
      using cs(4) g by auto
    ultimately show ?thesis by blast
  qed
qed

lemma fat_clear_cl_head_used:
  "fat_clear_cl_head fat cl = Return fat' \<Longrightarrow> fat_is_cl_used fat' c = fat_is_cl_used fat c"
  using fat_clear_cl_head_fields[of fat cl fat'] by (simp add: fat_is_cl_used_def)

text \<open>
  C1 (as amended). When \<^verbatim>\<open>checkchain\<close> accepts a chain (it returns FSOK, or FSFATMOD after
  a truncation), the final \<^verbatim>\<open>chainsize\<close> is the number of clusters the call has visited and
  marked used. When it returns FSOK these are exactly the clusters of the chain from the
  head to the cluster whose entry is the end-of-file mark, so \<^verbatim>\<open>chainsize\<close> is the length of
  the chain; the mark itself is not counted. For the chain 2, 3, EOF the result is 2.
\<close>

theorem checkchain_chainsize:
  assumes "checkchain w fat head = Return (ret, chainsize, fat', w')" and "ret \<noteq> FSERROR"
  shows "unat chainsize = card {c. fat_is_cl_used fat' c \<and> \<not> fat_is_cl_used fat c}
         \<and> (ret = FSOK \<longrightarrow>
              (\<exists>cs. chain fat head cs \<and> distinct cs \<and> unat chainsize = length cs
                 \<and> set cs = {c. fat_is_cl_used fat' c \<and> \<not> fat_is_cl_used fat c}
                 \<and> (\<forall>cs'. chain fat head cs' \<longrightarrow> cs' = cs)))"
  using assms(1)
proof (cases rule: checkchain_cases)
  case (1 fat1 fat2 x w1)
  note f1 = fat_clear_cl_head_fields[OF 1(4)]
  note f2 = fat_set_cl_used_fields[OF 1(5)]
  have u2: "\<And>c. fat_is_cl_used fat2 c = (c = head \<or> fat_is_cl_used fat c)"
    using fat_set_cl_used_get[OF 1(5)] fat_clear_cl_head_used[OF 1(4)] by simp
  from checkchain_loop_marked[OF 1(7) assms(2)]
  obtain ms where ms: "distinct ms" "\<forall>c \<in> set ms. \<not> fat_is_cl_used fat2 c"
    "chainsize = 0 + 1 + of_nat (length ms)"
    "\<forall>c. fat_is_cl_used fat' c = (c \<in> set ms \<or> fat_is_cl_used fat2 c)"
    by blast
  have d: "distinct (head # ms)" using ms(1,2) u2 by auto
  have s: "{c. fat_is_cl_used fat' c \<and> \<not> fat_is_cl_used fat c} = set (head # ms)"
    using ms(2,4) u2 1(3) by auto
  have "chainsize = of_nat (length (head # ms))" using ms(3) by simp
  moreover have "length (head # ms) < 2 ^ 64"
    using distinct_cl_length[OF d] by (simp del: length_Cons)
  ultimately have n: "unat chainsize = length (head # ms)"
    by (simp add: unat_of_nat del: length_Cons of_nat_Suc)
  have c: "unat chainsize = card {c. fat_is_cl_used fat' c \<and> \<not> fat_is_cl_used fat c}"
    unfolding s n using distinct_card[OF d] by simp
  have "\<exists>cs. chain fat head cs \<and> distinct cs \<and> unat chainsize = length cs
                 \<and> set cs = {c. fat_is_cl_used fat' c \<and> \<not> fat_is_cl_used fat c}
                 \<and> (\<forall>cs'. chain fat head cs' \<longrightarrow> cs' = cs)" if ok: "ret = FSOK"
  proof -
    have v: "fat_is_cl_valid fat2 head"
      using 1(1) f1 f2 by (simp add: fat_is_cl_valid_def)
    have x: "x = next_of fat2 head"
      using 1(6) fst_fat_get_cl_next[of w fat2 head] by simp
    from checkchain_loop_chain[OF 1(7)[unfolded ok] v x]
    obtain cs where cs: "chain fat2 head (head # cs)" "chainsize = 0 + 1 + of_nat (length cs)"
      "distinct cs" "\<forall>c \<in> set cs. \<not> fat_is_cl_used fat2 c"
      "\<forall>c. fat_is_cl_used fat' c = (c \<in> set cs \<or> fat_is_cl_used fat2 c)"
      by blast
    have ch: "chain fat head (head # cs)"
      using chain_cong[OF _ _ cs(1), of fat] f1 f2 by simp
    have dc: "distinct (head # cs)" using cs(3,4) u2 by auto
    have sc: "set (head # cs) = {c. fat_is_cl_used fat' c \<and> \<not> fat_is_cl_used fat c}"
      using cs(4,5) u2 1(3) by auto
    have "chainsize = of_nat (length (head # cs))" using cs(2) by simp
    moreover have "length (head # cs) < 2 ^ 64"
      using distinct_cl_length[OF dc] by (simp del: length_Cons)
    ultimately have l: "unat chainsize = length (head # cs)"
      by (simp add: unat_of_nat del: length_Cons of_nat_Suc)
    from ch dc l sc chain_unique[OF _ ch] show ?thesis by blast
  qed
  with c show ?thesis by blast
qed

lemma checkchain_sample:
  "checkchain world_rw fat16_scanned 2 = Return (FSOK, 2, fat16_checked, world_rw)"
proof -
  have w: "(0xffffffffffff0007 :: 64 word) = - 65529" "(0xffffffffffff0003 :: 64 word) = - 65533"
    by simp_all
  show ?thesis
    unfolding checkchain_def fat16_checked_def fat16_scanned_def w
    by (simp add: checkchain_loop.simps sample_eval)
qed

lemma checkchain_out_of_range:
  "\<exists>f w. checkchain world_rw fat16_out_of_range 2 = Return (FSERROR, 0, f, w)"
  unfolding checkchain_def fat16_out_of_range_def fat16_loaded_def
  by (simp add: checkchain_loop.simps sample_eval truncate_at_def ask_def world_rw_def pwarn_def)

theorem checkchain_chainsize_witness:
  "checkchain world_rw fat16_scanned 2 = Return (FSOK, 2, fat16_checked, world_rw)
   \<and> FSOK \<noteq> FSERROR
   \<and> chain fat16_scanned 2 [2, 3]
   \<and> unat (2 :: size_t) = length [2 :: cl_t, 3]
   \<and> unat (2 :: size_t)
       = card {c. fat_is_cl_used fat16_checked c \<and> \<not> fat_is_cl_used fat16_scanned c}
   \<and> set [2, 3] = {c. fat_is_cl_used fat16_checked c \<and> \<not> fat_is_cl_used fat16_scanned c}"
proof -
  have n: "next_of fat16_scanned 2 = 3" "next_of fat16_scanned 3 = CLUST_EOF"
    by (simp_all add: next_of_def fat16_scanned_def sample_eval)
  have v: "fat_is_cl_valid fat16_scanned 2" "fat_is_cl_valid fat16_scanned 3"
    "\<not> fat_is_cl_valid fat16_scanned CLUST_EOF" "CLUST_EOF \<ge> CLUST_EOFS"
    by (simp_all add: fat16_scanned_def sample_eval)
  have "chain fat16_scanned 3 [3]"
    by (rule chain_end) (simp_all add: n v)
  then have c: "chain fat16_scanned 2 [2, 3]"
    by (intro chain_link) (simp_all add: n v)
  have e: "FSOK \<noteq> FSERROR" by (simp add: status_distinct)
  from checkchain_chainsize[OF checkchain_sample e]
  obtain cs where cs: "chain fat16_scanned 2 cs" "unat (2 :: size_t) = length cs"
    "set cs = {c. fat_is_cl_used fat16_checked c \<and> \<not> fat_is_cl_used fat16_scanned c}"
    "unat (2 :: size_t)
       = card {c. fat_is_cl_used fat16_checked c \<and> \<not> fat_is_cl_used fat16_scanned c}"
    by blast
  have "cs = [2, 3]" using chain_unique[OF cs(1) c] .
  with cs c e checkchain_sample show ?thesis by simp
qed

text \<open>
  C1 as stated fails: on the FAT16 volume of the spec's first scenario, where the chain is
  2, 3, EOF, \<^verbatim>\<open>checkchain\<close> on head 2 returns FSOK with \<^verbatim>\<open>chainsize\<close> 2, not 3.
\<close>

theorem checkchain_chainsize_counterexample:
  "checkchain world_rw fat16_scanned 2 = Return (FSOK, 2, fat16_checked, world_rw)
   \<and> next_of fat16_scanned 2 = 3 \<and> next_of fat16_scanned 3 = CLUST_EOF
   \<and> (2 :: size_t) \<noteq> 3"
  using checkchain_sample
  by (simp add: next_of_def fat16_scanned_def sample_eval)

text \<open>
  The walk to a defect is unique: a path from the head is a prefix of every longer one,
  and the cluster after the last one of a walk would be valid, unused and new.
\<close>

lemma path_hd: "path fat c cs \<Longrightarrow> \<exists>cs'. cs = c # cs'"
  by (erule path.cases) simp_all

lemma path_valid: "path fat c cs \<Longrightarrow> \<forall>x \<in> set cs. fat_is_cl_valid fat x"
  by (induction rule: path.induct) simp_all

lemma path_Cons:
  "path fat c (x # y # ys) \<Longrightarrow> x = c \<and> y = next_of fat c \<and> path fat (next_of fat c) (y # ys)"
proof (erule path.cases)
  fix c' assume "c = c'" "x # y # ys = [c']"
  then show ?thesis by simp
next
  fix c' cs assume a: "c = c'" "x # y # ys = c' # cs" "path fat (next_of fat c') cs"
  then have "cs = y # ys" "x = c" by simp_all
  with a path_hd[OF a(3)] show ?thesis by auto
qed

lemma path_cong:
  assumes "fatbuf fat1 = fatbuf fat" "boot fat1 = boot fat"
  shows "path fat1 c cs \<Longrightarrow> path fat c cs"
proof (induction rule: path.induct)
  case (path_one c)
  then show ?case using assms by (auto intro: path.path_one simp: fat_is_cl_valid_def)
next
  case (path_link c cs)
  have "next_of fat1 c = next_of fat c" by (rule next_of_cong) (simp_all add: assms)
  with path_link show ?case using assms by (auto intro: path.path_link simp: fat_is_cl_valid_def)
qed

lemma path_next:
  "path fat c (xs @ y # ys) \<Longrightarrow> xs \<noteq> [] \<Longrightarrow> y = next_of fat (last xs)"
proof (induction xs arbitrary: c)
  case Nil
  then show ?case by simp
next
  case (Cons x xs)
  show ?case
  proof (cases xs)
    case Nil
    with Cons.prems path_Cons[of fat c x y ys] show ?thesis by simp
  next
    case (Cons x' xs')
    with Cons.prems path_Cons[of fat c x x' "xs' @ y # ys"]
    have "path fat (next_of fat c) (xs @ y # ys)" by auto
    from Cons.IH[OF this] Cons show ?thesis by simp
  qed
qed

lemma path_prefix:
  "path fat c cs \<Longrightarrow> path fat c cs' \<Longrightarrow> (\<exists>r. cs' = cs @ r) \<or> (\<exists>r. cs = cs' @ r)"
proof (induction arbitrary: cs' rule: path.induct)
  case (path_one c)
  with path_hd[of fat c cs'] show ?case by auto
next
  case (path_link c cs)
  from path_hd[OF path_link.prems] obtain t where t: "cs' = c # t" by blast
  show ?case
  proof (cases t)
    case Nil
    with t show ?thesis by simp
  next
    case (Cons y ys)
    with t path_link.prems path_Cons[of fat c c y ys]
    have "path fat (next_of fat c) t" by auto
    from path_link.IH[OF this] t show ?thesis by auto
  qed
qed

lemma defect_walk_longer:
  assumes "defect_walk fat head cs" "defect_walk fat head (cs @ y # ys)"
  shows False
proof -
  from assms(1) have p: "path fat head cs" by (simp add: defect_walk_def)
  then have ne: "cs \<noteq> []" using path_hd by blast
  from assms(2) have p': "path fat head (cs @ y # ys)" and d: "distinct (cs @ y # ys)"
    and u: "\<not> fat_is_cl_used fat y"
    by (simp_all add: defect_walk_def)
  have y: "y = next_of fat (last cs)" using path_next[OF p' ne] .
  have "fat_is_cl_valid fat y" using path_valid[OF p'] by simp
  with assms(1) y have "fat_is_cl_used fat y \<or> y \<in> set cs"
    by (simp add: defect_walk_def Let_def)
  with u d show False by auto
qed

lemma defect_walk_unique:
  assumes "defect_walk fat head cs" "defect_walk fat head cs'"
  shows "cs' = cs"
proof -
  from assms have "path fat head cs" "path fat head cs'" by (simp_all add: defect_walk_def)
  from path_prefix[OF this] show ?thesis
  proof
    assume "\<exists>r. cs' = cs @ r"
    then obtain r where r: "cs' = cs @ r" by blast
    show ?thesis
    proof (cases r)
      case Nil
      with r show ?thesis by simp
    next
      case (Cons y ys)
      with r assms defect_walk_longer[of fat head cs y ys] show ?thesis by simp
    qed
  next
    assume "\<exists>r. cs = cs' @ r"
    then obtain r where r: "cs = cs' @ r" by blast
    show ?thesis
    proof (cases r)
      case Nil
      with r show ?thesis by simp
    next
      case (Cons y ys)
      with r assms defect_walk_longer[of fat head cs' y ys] show ?thesis by simp
    qed
  qed
qed

text \<open>
  What \<^verbatim>\<open>truncate_at\<close> does depends on the world only through the next answer and
  \<^verbatim>\<open>rdonly\<close>, and the loop of \<^verbatim>\<open>checkchain\<close> changes neither before it stops.
\<close>

lemma ask_world:
  "rdonly (snd (ask d p w)) = rdonly w"
  "fst (ask False p w) = (\<exists>rest. answers w = True # rest)"
proof -
  show "rdonly (snd (ask d p w)) = rdonly w"
    by (cases "answers w") (simp_all add: ask_def)
  show "fst (ask False p w) = (\<exists>rest. answers w = True # rest)"
    by (cases "answers w") (simp_all add: ask_def)
qed

lemma fat_set_cl_next_rdonly_cong:
  "rdonly w1 = rdonly w \<Longrightarrow>
     fst (snd (fat_set_cl_next w1 fat c v)) = fst (snd (fat_set_cl_next w fat c v))"
  by (simp add: fat_set_cl_next_def Let_def split: prod.splits)

lemma truncate_at_answer:
  assumes "truncate_at w fat c n = (r, n', fat', w')"
  shows "(r = FSERROR \<and> fat' = fat \<and> \<not> (\<exists>rest. answers w = True # rest))
     \<or> (r = FSFATMOD \<and> (\<exists>rest. answers w = True # rest)
          \<and> fat' = fst (snd (fat_set_cl_next w fat c CLUST_EOF)))"
proof -
  obtain a w1 where a: "ask False ''Truncate'' w = (a, w1)" by (cases "ask False ''Truncate'' w")
  then have r: "rdonly w1 = rdonly w" and y: "a = (\<exists>rest. answers w = True # rest)"
    using ask_world(1)[of False "''Truncate''" w] ask_world(2)[of "''Truncate''" w] by simp_all
  show ?thesis
  proof (cases a)
    case False
    with assms a y show ?thesis by (simp add: truncate_at_def)
  next
    case True
    obtain r0 f1 w2 where s: "fat_set_cl_next w1 fat c CLUST_EOF = (r0, f1, w2)"
      by (metis prod_cases3)
    then have "f1 = fst (snd (fat_set_cl_next w fat c CLUST_EOF))"
      using fat_set_cl_next_rdonly_cong[OF r, of fat c CLUST_EOF] by simp
    moreover from assms a True s have "r = FSFATMOD" "fat' = f1"
      by (simp_all add: truncate_at_def)
    ultimately show ?thesis using True y by simp
  qed
qed

lemma checkchain_loop_stops:
  assumes "checkchain_loop w fat head cur nxt n = Return res"
  obtains
    (natural_end) "\<not> fat_is_cl_valid fat nxt" "nxt \<ge> CLUST_EOFS" "res = (FSOK, n + 1, fat, w)"
  | (crossed) "fat_is_cl_valid fat nxt" "fat_is_cl_used fat nxt"
      "res = truncate_at (pwarn (CrossedChain head cur nxt) w) fat cur n"
  | (bad_end) "\<not> fat_is_cl_valid fat nxt" "nxt < CLUST_EOFS"
      "res = truncate_at (pwarn (ContinuesWith cur (\<not> nxt < CLUST_RSRVD)
                                  (nxt AND ClustMask (boot fat))) w) fat cur n"
  | (step) fat1 x w1 where "fat_is_cl_valid fat nxt" "\<not> fat_is_cl_used fat nxt"
      "fat_set_cl_used fat nxt = Return fat1" "fat_get_cl_next w fat1 nxt = (x, w1)"
      "checkchain_loop w1 fat1 head nxt x (n + 1) = Return res"
proof (cases "fat_is_cl_valid fat nxt")
  case False
  with assms natural_end bad_end show ?thesis
    by (subst (asm) checkchain_loop.simps) (auto split: if_splits)
next
  case v: True
  show ?thesis
  proof (cases "fat_is_cl_used fat nxt")
    case True
    with v assms crossed show ?thesis
      by (subst (asm) checkchain_loop.simps) auto
  next
    case u: False
    from assms v u obtain fat1 where s: "fat_set_cl_used fat nxt = Return fat1"
      by (subst (asm) checkchain_loop.simps) (simp split: outcome.splits)
    obtain x w1 where g: "fat_get_cl_next w fat1 nxt = (x, w1)"
      by (cases "fat_get_cl_next w fat1 nxt")
    from assms v u s g have "checkchain_loop w1 fat1 head nxt x (n + 1) = Return res"
      by (subst (asm) checkchain_loop.simps) simp
    with v u s g step show ?thesis by blast
  qed
qed

lemma checkchain_loop_defect:
  "checkchain_loop w fat head cur nxt n = Return (r, n', fat', w') \<Longrightarrow> r \<noteq> FSOK \<Longrightarrow>
   fat_is_cl_valid fat cur \<Longrightarrow> nxt = next_of fat cur \<Longrightarrow>
     \<exists>cs. path fat cur (cur # cs) \<and> distinct cs \<and> (\<forall>c \<in> set cs. \<not> fat_is_cl_used fat c)
       \<and> (let x = next_of fat (last (cur # cs))
          in if fat_is_cl_valid fat x then fat_is_cl_used fat x \<or> x \<in> set cs
             else x < CLUST_EOFS)
       \<and> (r = FSERROR \<and> fatbuf fat' = fatbuf fat \<and> \<not> (\<exists>rest. answers w = True # rest)
          \<or> r = FSFATMOD \<and> (\<exists>rest. answers w = True # rest)
            \<and> fatbuf fat'
                = fatbuf (fst (snd (fat_set_cl_next w fat (last (cur # cs)) CLUST_EOF))))"
proof (induction w fat head cur nxt n rule: checkchain_loop.induct)
  case (1 w fat head cur nxt n)
  have stop: ?case
    if t: "truncate_at (pwarn m w) fat cur n = (r, n', fat', w')"
      and x: "if fat_is_cl_valid fat nxt then fat_is_cl_used fat nxt else nxt < CLUST_EOFS"
    for m
  proof -
    have a: "answers (pwarn m w) = answers w" "rdonly (pwarn m w) = rdonly w"
      by (simp_all add: pwarn_def)
    have c: "fst (snd (fat_set_cl_next (pwarn m w) fat cur CLUST_EOF))
             = fst (snd (fat_set_cl_next w fat cur CLUST_EOF))"
      by (rule fat_set_cl_next_rdonly_cong) (rule a(2))
    have p: "path fat cur [cur]" using "1.prems"(3) by (rule path_one)
    have x': "let x = next_of fat (last [cur])
       in if fat_is_cl_valid fat x then fat_is_cl_used fat x \<or> x \<in> set []
          else x < CLUST_EOFS"
      using x unfolding "1.prems"(4) by (simp add: Let_def)
    have d: "distinct ([] :: cl_t list)" "\<forall>c \<in> set []. \<not> fat_is_cl_used fat c" by simp_all
    from truncate_at_answer[OF t]
    have e: "r = FSERROR \<and> fatbuf fat' = fatbuf fat \<and> \<not> (\<exists>rest. answers w = True # rest)
       \<or> r = FSFATMOD \<and> (\<exists>rest. answers w = True # rest)
         \<and> fatbuf fat' = fatbuf (fst (snd (fat_set_cl_next w fat (last [cur]) CLUST_EOF)))"
      unfolding a(1) c by auto
    have "path fat cur (cur # []) \<and> distinct ([] :: cl_t list)
       \<and> (\<forall>c \<in> set []. \<not> fat_is_cl_used fat c)
       \<and> (let x = next_of fat (last (cur # []))
          in if fat_is_cl_valid fat x then fat_is_cl_used fat x \<or> x \<in> set []
             else x < CLUST_EOFS)
       \<and> (r = FSERROR \<and> fatbuf fat' = fatbuf fat \<and> \<not> (\<exists>rest. answers w = True # rest)
          \<or> r = FSFATMOD \<and> (\<exists>rest. answers w = True # rest)
            \<and> fatbuf fat'
                = fatbuf (fst (snd (fat_set_cl_next w fat (last (cur # [])) CLUST_EOF))))"
      by (intro conjI; fact)
    then show ?thesis by (rule exI)
  qed
  from "1.prems"(1) show ?case
  proof (cases rule: checkchain_loop_stops)
    case natural_end
    with "1.prems"(2) show ?thesis by simp
  next
    case crossed
    from crossed(3) have t: "truncate_at (pwarn (CrossedChain head cur nxt) w) fat cur n
        = (r, n', fat', w')" by simp
    show ?thesis by (rule stop[OF t]) (simp add: crossed)
  next
    case bad_end
    from bad_end(3) have t: "truncate_at (pwarn (ContinuesWith cur (\<not> nxt < CLUST_RSRVD)
                                  (nxt AND ClustMask (boot fat))) w) fat cur n
        = (r, n', fat', w')" by simp
    show ?thesis by (rule stop[OF t]) (simp add: bad_end)
  next
    case (step fat1 x w1)
    note f = fat_set_cl_used_fields[OF step(3)]
    note g = fat_set_cl_used_get[OF step(3)]
    have v1: "fat_is_cl_valid fat1 nxt" "\<And>c. fat_is_cl_valid fat1 c = fat_is_cl_valid fat c"
      using step(1) f by (simp_all add: fat_is_cl_valid_def)
    have nx: "\<And>c. next_of fat1 c = next_of fat c"
      by (rule next_of_cong) (simp_all add: f)
    have x: "x = next_of fat1 nxt"
      using step(4) fst_fat_get_cl_next[of w fat1 nxt] by simp
    have w1: "answers w1 = answers w" "rdonly w1 = rdonly w"
      using step(4) fat_get_cl_next_world[of w fat1 nxt] by simp_all
    have sc: "fatbuf (fst (snd (fat_set_cl_next w1 fat1 c CLUST_EOF)))
                = fatbuf (fst (snd (fat_set_cl_next w fat c CLUST_EOF)))" for c
    proof -
      have "fatbuf (fst (snd (fat_set_cl_next w1 fat1 c CLUST_EOF)))
              = fatbuf (fst (snd (fat_set_cl_next w1 fat c CLUST_EOF)))"
        by (rule fat_set_cl_next_fatbuf_cong) (simp_all add: f)
      also have "fst (snd (fat_set_cl_next w1 fat c CLUST_EOF))
              = fst (snd (fat_set_cl_next w fat c CLUST_EOF))"
        by (rule fat_set_cl_next_rdonly_cong) (rule w1(2))
      finally show ?thesis .
    qed
    from "1.IH"[OF step(1,2,3) step(4)[symmetric] refl step(5) "1.prems"(2) v1(1) x]
    obtain cs where cs: "path fat1 nxt (nxt # cs)" "distinct cs"
      "\<forall>c \<in> set cs. \<not> fat_is_cl_used fat1 c"
      "let x = next_of fat1 (last (nxt # cs))
       in if fat_is_cl_valid fat1 x then fat_is_cl_used fat1 x \<or> x \<in> set cs
          else x < CLUST_EOFS"
      "r = FSERROR \<and> fatbuf fat' = fatbuf fat1 \<and> \<not> (\<exists>rest. answers w1 = True # rest)
       \<or> r = FSFATMOD \<and> (\<exists>rest. answers w1 = True # rest)
         \<and> fatbuf fat'
             = fatbuf (fst (snd (fat_set_cl_next w1 fat1 (last (nxt # cs)) CLUST_EOF)))"
      by blast
    have p: "path fat cur (cur # nxt # cs)"
      using path_cong[OF _ _ cs(1), of fat] f "1.prems"(3,4)
      by (auto intro: path_link)
    have d: "distinct (nxt # cs)" "\<forall>c \<in> set (nxt # cs). \<not> fat_is_cl_used fat c"
      using cs(2,3) g step(2) by auto
    let ?x = "next_of fat (last (nxt # cs))"
    from cs(4) have s1: "if fat_is_cl_valid fat ?x
        then (?x = nxt \<or> fat_is_cl_used fat ?x) \<or> ?x \<in> set cs else ?x < CLUST_EOFS"
      unfolding Let_def nx v1(2) g .
    have s: "let x = next_of fat (last (cur # nxt # cs))
       in if fat_is_cl_valid fat x then fat_is_cl_used fat x \<or> x \<in> set (nxt # cs)
          else x < CLUST_EOFS"
    proof (cases "fat_is_cl_valid fat ?x")
      case True
      with s1 show ?thesis by (auto simp: Let_def)
    next
      case False
      with s1 show ?thesis by (simp add: Let_def)
    qed
    from cs(5)
    have e: "r = FSERROR \<and> fatbuf fat' = fatbuf fat \<and> \<not> (\<exists>rest. answers w = True # rest)
       \<or> r = FSFATMOD \<and> (\<exists>rest. answers w = True # rest)
         \<and> fatbuf fat'
             = fatbuf (fst (snd (fat_set_cl_next w fat (last (cur # nxt # cs)) CLUST_EOF)))"
      unfolding w1 sc using f by simp
    have "path fat cur (cur # nxt # cs) \<and> distinct (nxt # cs)
       \<and> (\<forall>c \<in> set (nxt # cs). \<not> fat_is_cl_used fat c)
       \<and> (let x = next_of fat (last (cur # nxt # cs))
          in if fat_is_cl_valid fat x then fat_is_cl_used fat x \<or> x \<in> set (nxt # cs)
             else x < CLUST_EOFS)
       \<and> (r = FSERROR \<and> fatbuf fat' = fatbuf fat \<and> \<not> (\<exists>rest. answers w = True # rest)
          \<or> r = FSFATMOD \<and> (\<exists>rest. answers w = True # rest)
            \<and> fatbuf fat'
                = fatbuf (fst (snd (fat_set_cl_next w fat (last (cur # nxt # cs)) CLUST_EOF))))"
      by (intro conjI; fact)
    then show ?thesis by (rule exI)
  qed
qed

text \<open>
  C10. \<^verbatim>\<open>checkchain\<close> returns nothing but FSOK, FSERROR and FSFATMOD. When it returns FSOK
  (a natural end) or FSERROR, the in-memory FAT buffer is as it was before the call.
  It returns FSERROR or FSFATMOD only when the walk from the head has stopped at a
  cross-link or at a bad terminator (\<open>defect_walk\<close>; there is one such walk), FSERROR
  when the operator does not answer yes and FSFATMOD when the answer is yes; and then
  the buffer is the result of the one call \<^verbatim>\<open>fat_set_cl_next(fat, current_cl, CLUST_EOF)\<close> of
  \<^verbatim>\<open>truncate_at\<close>, where \<^verbatim>\<open>current_cl\<close> is the last cluster of the walk.
\<close>

theorem checkchain_buffer:
  assumes "checkchain w fat head = Return (ret, chainsize, fat', w')"
  shows "(ret = FSOK \<or> ret = FSERROR \<longrightarrow> fatbuf fat' = fatbuf fat)
    \<and> (ret = FSOK \<or> ret = FSERROR \<or> ret = FSFATMOD)
    \<and> (ret = FSFATMOD \<longrightarrow>
         (\<exists>cs rest. defect_walk fat head cs \<and> (\<forall>cs'. defect_walk fat head cs' \<longrightarrow> cs' = cs)
            \<and> answers w = True # rest
            \<and> fatbuf fat' = fatbuf (fst (snd (fat_set_cl_next w fat (last cs) CLUST_EOF)))))
    \<and> (ret = FSERROR \<longrightarrow>
         (\<exists>cs. defect_walk fat head cs) \<and> \<not> (\<exists>rest. answers w = True # rest))"
  using assms
proof (cases rule: checkchain_cases)
  case (1 fat1 fat2 x w1)
  note f1 = fat_clear_cl_head_fields[OF 1(4)]
  note f2 = fat_set_cl_used_fields[OF 1(5)]
  have fb: "fatbuf fat2 = fatbuf fat" "boot fat2 = boot fat" using f1 f2 by simp_all
  have v: "fat_is_cl_valid fat2 head" "\<And>c. fat_is_cl_valid fat2 c = fat_is_cl_valid fat c"
    using 1(1) fb by (simp_all add: fat_is_cl_valid_def)
  have nx: "\<And>c. next_of fat2 c = next_of fat c"
    by (rule next_of_cong) (simp_all add: fb)
  have u2: "\<And>c. fat_is_cl_used fat2 c = (c = head \<or> fat_is_cl_used fat c)"
    using fat_set_cl_used_get[OF 1(5)] fat_clear_cl_head_used[OF 1(4)] by simp
  have x: "x = next_of fat2 head"
    using 1(6) fst_fat_get_cl_next[of w fat2 head] by simp
  have w1: "answers w1 = answers w" "rdonly w1 = rdonly w"
    using 1(6) fat_get_cl_next_world[of w fat2 head] by simp_all
  have sc: "fatbuf (fst (snd (fat_set_cl_next w1 fat2 c CLUST_EOF)))
              = fatbuf (fst (snd (fat_set_cl_next w fat c CLUST_EOF)))" for c
  proof -
    have "fatbuf (fst (snd (fat_set_cl_next w1 fat2 c CLUST_EOF)))
            = fatbuf (fst (snd (fat_set_cl_next w1 fat c CLUST_EOF)))"
      by (rule fat_set_cl_next_fatbuf_cong) (simp_all add: fb)
    also have "fst (snd (fat_set_cl_next w1 fat c CLUST_EOF))
            = fst (snd (fat_set_cl_next w fat c CLUST_EOF))"
      by (rule fat_set_cl_next_rdonly_cong) (rule w1(2))
    finally show ?thesis .
  qed
  from checkchain_loop_buffer[OF 1(7) v(1)]
  have b: "ret = FSOK \<or> ret = FSERROR \<or> ret = FSFATMOD"
    "ret = FSOK \<or> ret = FSERROR \<longrightarrow> fatbuf fat' = fatbuf fat"
    by (simp_all add: fb)
  have D: "\<exists>cs. defect_walk fat head cs
       \<and> (ret = FSERROR \<and> \<not> (\<exists>rest. answers w = True # rest)
          \<or> ret = FSFATMOD \<and> (\<exists>rest. answers w = True # rest)
            \<and> fatbuf fat' = fatbuf (fst (snd (fat_set_cl_next w fat (last cs) CLUST_EOF))))"
    if n: "ret \<noteq> FSOK"
  proof -
    from checkchain_loop_defect[OF 1(7) n v(1) x]
    obtain cs where cs: "path fat2 head (head # cs)" "distinct cs"
      "\<forall>c \<in> set cs. \<not> fat_is_cl_used fat2 c"
      "let x = next_of fat2 (last (head # cs))
       in if fat_is_cl_valid fat2 x then fat_is_cl_used fat2 x \<or> x \<in> set cs
          else x < CLUST_EOFS"
      "ret = FSERROR \<and> fatbuf fat' = fatbuf fat2 \<and> \<not> (\<exists>rest. answers w1 = True # rest)
       \<or> ret = FSFATMOD \<and> (\<exists>rest. answers w1 = True # rest)
         \<and> fatbuf fat'
             = fatbuf (fst (snd (fat_set_cl_next w1 fat2 (last (head # cs)) CLUST_EOF)))"
      by blast
    have p: "path fat head (head # cs)" using path_cong[OF fb cs(1)] .
    have d: "distinct (head # cs)" "\<forall>c \<in> set (head # cs). \<not> fat_is_cl_used fat c"
      using cs(2,3) u2 1(3) by auto
    let ?x = "next_of fat (last (head # cs))"
    from cs(4) have s1: "if fat_is_cl_valid fat ?x
        then (?x = head \<or> fat_is_cl_used fat ?x) \<or> ?x \<in> set cs else ?x < CLUST_EOFS"
      unfolding Let_def nx v(2) u2 .
    have s: "let n = next_of fat (last (head # cs))
       in if fat_is_cl_valid fat n then fat_is_cl_used fat n \<or> n \<in> set (head # cs)
          else n < CLUST_EOFS"
    proof (cases "fat_is_cl_valid fat ?x")
      case True
      with s1 show ?thesis by (auto simp: Let_def)
    next
      case False
      with s1 show ?thesis by (simp add: Let_def)
    qed
    have dw: "defect_walk fat head (head # cs)"
      unfolding defect_walk_def by (intro conjI; fact)
    from cs(5)
    have e: "ret = FSERROR \<and> \<not> (\<exists>rest. answers w = True # rest)
       \<or> ret = FSFATMOD \<and> (\<exists>rest. answers w = True # rest)
         \<and> fatbuf fat'
             = fatbuf (fst (snd (fat_set_cl_next w fat (last (head # cs)) CLUST_EOF)))"
      unfolding w1 sc by blast
    from dw e show ?thesis by blast
  qed
  have M: "\<exists>cs rest. defect_walk fat head cs \<and> (\<forall>cs'. defect_walk fat head cs' \<longrightarrow> cs' = cs)
            \<and> answers w = True # rest
            \<and> fatbuf fat' = fatbuf (fst (snd (fat_set_cl_next w fat (last cs) CLUST_EOF)))"
    if m: "ret = FSFATMOD"
  proof -
    from m have "ret \<noteq> FSOK" "ret \<noteq> FSERROR" by (simp_all add: status_distinct)
    with D obtain cs rest where cs: "defect_walk fat head cs" "answers w = True # rest"
      "fatbuf fat' = fatbuf (fst (snd (fat_set_cl_next w fat (last cs) CLUST_EOF)))"
      by blast
    have "\<forall>cs'. defect_walk fat head cs' \<longrightarrow> cs' = cs"
      using defect_walk_unique[OF cs(1)] by blast
    with cs show ?thesis by blast
  qed
  have E: "(\<exists>cs. defect_walk fat head cs) \<and> \<not> (\<exists>rest. answers w = True # rest)"
    if m: "ret = FSERROR"
  proof -
    from m have "ret \<noteq> FSOK" "ret \<noteq> FSFATMOD" by (simp_all add: status_distinct)
    with D show ?thesis by blast
  qed
  from b M E show ?thesis by blast
qed

lemma checkchain_crossed:
  "checkchain world_yes fat16_crossed 3
     = Return (FSFATMOD, 1, fat16_crossed_cut,
               world_yes\<lparr>answers := [], diags := [Pwarn (CrossedChain 3 3 4)]\<rparr>)"
proof -
  have w: "(0xffffffffffff000b :: 64 word) = - 65525" "(0xffffffffffff0003 :: 64 word) = - 65533"
    by simp_all
  have b: "(65535 :: u_char) = 255" by simp
  show ?thesis
    unfolding checkchain_def fat16_crossed_cut_def fat16_crossed_def w
    by (simp add: checkchain_loop.simps sample_eval image16_crossed_def truncate_at_def ask_def
        world_yes_def pwarn_def fat_set_cl_next_def fat_set_fat16_next_def le16enc_def b)
qed

theorem checkchain_buffer_witness:
  "checkchain world_rw fat16_scanned 2 = Return (FSOK, 2, fat16_checked, world_rw)
   \<and> fatbuf fat16_checked = fatbuf fat16_scanned
   \<and> (\<exists>f w. checkchain world_rw fat16_out_of_range 2 = Return (FSERROR, 0, f, w)
          \<and> fatbuf f = fatbuf fat16_out_of_range)
   \<and> answers world_rw = []
   \<and> checkchain world_yes fat16_crossed 3
       = Return (FSFATMOD, 1, fat16_crossed_cut,
                 world_yes\<lparr>answers := [], diags := [Pwarn (CrossedChain 3 3 4)]\<rparr>)
   \<and> answers world_yes = [True]
   \<and> defect_walk fat16_crossed 3 [3]
   \<and> fatbuf fat16_crossed_cut
       = fatbuf (fst (snd (fat_set_cl_next world_yes fat16_crossed (last [3]) CLUST_EOF)))
   \<and> fatbuf fat16_crossed_cut = (fatbuf fat16_crossed)(6 := 0xff, 7 := 0xff)"
proof -
  from checkchain_out_of_range obtain f w where
    e: "checkchain world_rw fat16_out_of_range 2 = Return (FSERROR, 0, f, w)" by blast
  have a: "answers world_rw = []" "answers world_yes = [True]"
    by (simp_all add: world_rw_def world_yes_def)
  have p: "path fat16_crossed 3 [3]"
    by (rule path_one) (simp add: fat16_crossed_def sample_eval)
  have dw: "defect_walk fat16_crossed 3 [3]"
    using p by (simp add: defect_walk_def next_of_def fat16_crossed_def image16_crossed_def
        sample_eval)
  have m: "FSFATMOD = FSFATMOD" ..
  from checkchain_buffer[OF checkchain_crossed] dw
  have c: "fatbuf fat16_crossed_cut
       = fatbuf (fst (snd (fat_set_cl_next world_yes fat16_crossed (last [3]) CLUST_EOF)))"
    by blast
  have b: "fatbuf fat16_crossed_cut = (fatbuf fat16_crossed)(6 := 0xff, 7 := 0xff)"
    by (simp add: fat16_crossed_cut_def fat16_crossed_def)
  from checkchain_buffer[OF checkchain_sample] checkchain_buffer[OF e] e checkchain_sample
    checkchain_crossed a dw c b
  show ?thesis by auto
qed

text \<open>
  C2 fails on the code. \<^verbatim>\<open>clearchain\<close> reads \<^verbatim>\<open>next_cl\<close> before it has assigned it: after the
  head, the walk goes on from whatever the variable held. On the sample volume with the
  chain 2, 3, EOF and \<^verbatim>\<open>next_cl\<close> holding 0, \<^verbatim>\<open>clearchain\<close> on head 2 frees cluster 2 only:
  cluster 3 keeps its end-of-file mark and its used bit, and \<^verbatim>\<open>fat_get_cl_next\<close> is called on
  cluster 0 (a \<^verbatim>\<open>pfatal\<close>). Only when \<^verbatim>\<open>next_cl\<close> happens to hold 3 is the chain freed.
\<close>

theorem clearchain_indeterminate_next:
  "clearchain 0 world_rw fat16_checked 2
     = Some (Return (fat16_head_cleared, world_rw\<lparr>diags := [Pfatal (InvalidCluster 0)]\<rparr>))
   \<and> next_of fat16_head_cleared 2 = CLUST_FREE
   \<and> next_of fat16_head_cleared 3 = CLUST_EOF
   \<and> fat_is_cl_used fat16_head_cleared 3
   \<and> clearchain 3 world_rw fat16_checked 2
     = Some (Return (fat16_chain_cleared,
                     world_rw\<lparr>diags := [Pfatal (InvalidCluster CLUST_EOF)]\<rparr>))
   \<and> next_of fat16_chain_cleared 3 = CLUST_FREE"
proof -
  have w: "(0xffffffffffff0007 :: 64 word) = - 65529" "(0xffffffffffff0003 :: 64 word) = - 65533"
    by simp_all
  have 1: "clearchain 0 world_rw fat16_checked 2
     = Some (Return (fat16_head_cleared, world_rw\<lparr>diags := [Pfatal (InvalidCluster 0)]\<rparr>))"
    unfolding clearchain_def fat16_head_cleared_def fat16_checked_def fat16_scanned_def w
    by (simp add: clearchain_loop.simps sample_eval fat_set_cl_next_def world_rw_def
        fat_set_fat16_next_def le16enc_def pfatal_def)
  have 2: "clearchain 3 world_rw fat16_checked 2
     = Some (Return (fat16_chain_cleared,
                     world_rw\<lparr>diags := [Pfatal (InvalidCluster CLUST_EOF)]\<rparr>))"
    unfolding clearchain_def fat16_chain_cleared_def fat16_checked_def fat16_scanned_def w
    by (simp add: clearchain_loop.simps sample_eval fat_set_cl_next_def world_rw_def
        fat_set_fat16_next_def le16enc_def pfatal_def fun_upd_idem)
  have 3: "next_of fat16_head_cleared 2 = CLUST_FREE" "next_of fat16_head_cleared 3 = CLUST_EOF"
    "fat_is_cl_used fat16_head_cleared 3" "next_of fat16_chain_cleared 3 = CLUST_FREE"
    by (simp_all add: next_of_def fat16_head_cleared_def fat16_chain_cleared_def
        fat16_checked_def fat16_scanned_def sample_eval)
  from 1 2 3 show ?thesis by simp
qed

end
